theory Spec2Isabelle
  imports Main
begin

chapter \<open>AutoGFormBot: the form traversal engine, its preference cache and its scheduler\<close>

text \<open>
  A shallow embedding of \<^verbatim>\<open>src/examples/src/browser/handler.py\<close> (the Telegram
  conversation handlers that walk a Google Form) and of
  \<^verbatim>\<open>src/examples/src/questions/duration.py\<close> (the duration question).
  Python dictionaries are records of optional fields or association lists, calls into
  the browser driver and the chat transport are recorded in a trace, exceptions and
  early returns are values.
\<close>

section \<open>Duration questions (questions/duration.py)\<close>

subsection \<open>Python's \<^verbatim>\<open>str.split\<close> and \<^verbatim>\<open>int\<close> on text\<close>

text \<open>
  \<^verbatim>\<open>duration.split(":")\<close>: the pieces between separators; the empty text
  gives one empty piece.
\<close>

fun split_on :: "char \<Rightarrow> string \<Rightarrow> string list" where
  "split_on sep [] = [[]]"
| "split_on sep (c # cs) =
     (if c = sep then [] # split_on sep cs
      else (case split_on sep cs of
              p # ps \<Rightarrow> (c # p) # ps
            | [] \<Rightarrow> [[c]]))"

text \<open>
  \<^verbatim>\<open>int(text)\<close> in base ten, on ASCII text: surrounding white space (space, tab,
  line feed, vertical tab, form feed, carriage return) is dropped, one sign may lead,
  then come decimal digits, where a single underscore may stand between two digits.
  Anything else raises \<^verbatim>\<open>ValueError\<close>, here \<open>None\<close>.
\<close>

definition is_space :: "char \<Rightarrow> bool" where
  "is_space c = (c = CHR '' '' \<or> (9 \<le> (of_char c :: nat) \<and> (of_char c :: nat) \<le> 13))"

definition is_digit :: "char \<Rightarrow> bool" where
  "is_digit c = (48 \<le> (of_char c :: nat) \<and> (of_char c :: nat) \<le> 57)"

definition digit_val :: "char \<Rightarrow> int" where
  "digit_val c = int (of_char c) - 48"

fun py_digits :: "int \<Rightarrow> string \<Rightarrow> int option" where
  "py_digits a [] = Some a"
| "py_digits a (c # cs) =
     (if is_digit c then py_digits (10 * a + digit_val c) cs
      else if c = CHR ''_'' then
        (case cs of
           [] \<Rightarrow> None
         | d # ds \<Rightarrow> if is_digit d then py_digits (10 * a + digit_val d) ds else None)
      else None)"

definition py_unsigned :: "string \<Rightarrow> int option" where
  "py_unsigned s =
     (case s of
        [] \<Rightarrow> None
      | c # cs \<Rightarrow> if is_digit c then py_digits (digit_val c) cs else None)"

definition strip :: "string \<Rightarrow> string" where
  "strip s = rev (dropWhile is_space (rev (dropWhile is_space s)))"

definition py_int :: "string \<Rightarrow> int option" where
  "py_int s =
     (case strip s of
        [] \<Rightarrow> None
      | c # cs \<Rightarrow>
          if c = CHR ''-'' then map_option uminus (py_unsigned cs)
          else if c = CHR ''+'' then py_unsigned cs
          else py_unsigned (c # cs))"

subsection \<open>The question object and the browser\<close>

text \<open>
  A \<^verbatim>\<open>WebElement\<close> is a handle. The question caches the hour, minute and second
  input fields in \<^verbatim>\<open>_ANSWER_ELEMENTS\<close>. What the page answers is not the
  question's to decide: \<^verbatim>\<open>BaseQuestion._is_valid\<close>, \<^verbatim>\<open>BaseQuestion.get_info\<close>
  (seen through \<^verbatim>\<open>Browser.monitor_browser\<close>) and \<^verbatim>\<open>find_element\<close> are not
  under src/ and are parameters of the model.
\<close>

type_synonym element = nat

type_synonym elements = "element \<times> element \<times> element"

record duration_question =
  ANSWER_ELEMENTS :: "elements option"

record page =
  element_valid :: "elements \<Rightarrow> bool"
  base_get_info :: "bool option"
  found_elements :: elements

datatype key_action = Click element | SendKeys element int

datatype answer_result = Returned "bool option" | RaisedTypeError

text \<open>
  \<^verbatim>\<open>DurationQuestion.get_info\<close>: an unwanted result of the base class is passed
  on; otherwise the three input fields are located and cached.
\<close>

definition DurationQuestion_get_info ::
    "page \<Rightarrow> duration_question \<Rightarrow> bool option \<times> duration_question" where
  "DurationQuestion_get_info P q =
     (if base_get_info P = Some True
      then (Some True, q\<lparr>ANSWER_ELEMENTS := Some (found_elements P)\<rparr>)
      else (base_get_info P, q))"

text \<open>
  The \<^verbatim>\<open>try\<close> block of \<^verbatim>\<open>answer\<close>: unpacking the split into three names,
  the three \<^verbatim>\<open>int\<close> conversions and the range check each raise
  \<^verbatim>\<open>ValueError\<close> on failure, and the handler returns \<^verbatim>\<open>False\<close> for all of them.
\<close>

definition valid_duration :: "string \<Rightarrow> (int \<times> int \<times> int) option" where
  "valid_duration duration =
     (case split_on CHR '':'' duration of
        [a, b, c] \<Rightarrow>
          (case py_int a of
             None \<Rightarrow> None
           | Some hour \<Rightarrow>
               (case py_int b of
                  None \<Rightarrow> None
                | Some minute \<Rightarrow>
                    (case py_int c of
                       None \<Rightarrow> None
                     | Some second \<Rightarrow>
                         if 0 \<le> hour \<and> hour \<le> 72 \<and> 0 \<le> minute \<and> minute \<le> 59
                            \<and> 0 \<le> second \<and> second \<le> 59
                         then Some (hour, minute, second)
                         else None)))
      | _ \<Rightarrow> None)"

text \<open>
  \<^verbatim>\<open>DurationQuestion.answer\<close>. The sanity check comes first: unless the cached
  elements exist and are still valid, \<^verbatim>\<open>get_info\<close> runs, and its unwanted result
  (\<^verbatim>\<open>False\<close> or \<^verbatim>\<open>None\<close>) is returned as it is. Then the input is validated, and
  each value is typed into its element after a click. The result is the returned
  value, the question and the keys sent.
\<close>

definition send_duration :: "elements \<Rightarrow> int \<times> int \<times> int \<Rightarrow> key_action list" where
  "send_duration es v =
     (case (es, v) of
        ((eh, em, es'), (hour, minute, second)) \<Rightarrow>
          [Click eh, SendKeys eh hour, Click em, SendKeys em minute,
           Click es', SendKeys es' second])"

definition elements_sane :: "page \<Rightarrow> duration_question \<Rightarrow> bool" where
  "elements_sane P q =
     (case ANSWER_ELEMENTS q of None \<Rightarrow> False | Some es \<Rightarrow> element_valid P es)"

definition validate_and_send ::
    "duration_question \<Rightarrow> string \<Rightarrow> answer_result \<times> duration_question \<times> key_action list" where
  "validate_and_send q duration =
     (case valid_duration duration of
        None \<Rightarrow> (Returned (Some False), q, [])
      | Some v \<Rightarrow>
          (case ANSWER_ELEMENTS q of
             None \<Rightarrow> (RaisedTypeError, q, [])
           | Some es \<Rightarrow> (Returned (Some True), q, send_duration es v)))"

definition DurationQuestion_answer ::
    "page \<Rightarrow> duration_question \<Rightarrow> string
      \<Rightarrow> answer_result \<times> duration_question \<times> key_action list" where
  "DurationQuestion_answer P q duration =
     (if elements_sane P q then validate_and_send q duration
      else (case DurationQuestion_get_info P q of
              (result, q1) \<Rightarrow>
                if result \<noteq> Some True then (Returned result, q1, [])
                else validate_and_send q1 duration))"

section \<open>The conversation handlers (browser/handler.py): data\<close>

subsection \<open>Python values held in the user data\<close>

text \<open>
  An answer is a string, a tuple of strings or an \<^verbatim>\<open>OrderedDict\<close> from sub-question
  to sub-answer. The dictionary is a mutable object: the user data holds a reference to
  it, and the same object can be reached from the current answer and from a saved
  preference, so dictionaries live in a store of objects and \<open>PDict\<close> is an address.
  An \<^verbatim>\<open>OrderedDict\<close> is an association list in insertion order whose keys are
  distinct.
\<close>

type_synonym addr = nat

datatype pyval = PNone | PStr string | PTuple "string list" | PDict addr

type_synonym ordered_dict = "(string \<times> pyval) list"

text \<open>\<^verbatim>\<open>d[key] = v\<close>: an existing key keeps its place, a new key goes last.\<close>

fun od_set :: "ordered_dict \<Rightarrow> string \<Rightarrow> pyval \<Rightarrow> ordered_dict" where
  "od_set [] k v = [(k, v)]"
| "od_set ((k', v') # d) k v = (if k' = k then (k, v) # d else (k', v') # od_set d k v)"

text \<open>\<^verbatim>\<open>d.get(key)\<close>, which is \<^verbatim>\<open>None\<close> for a missing key.\<close>

definition od_get :: "ordered_dict \<Rightarrow> string \<Rightarrow> pyval" where
  "od_get d k = (case map_of d k of None \<Rightarrow> PNone | Some v \<Rightarrow> v)"

text \<open>\<^verbatim>\<open>OrderedDict((q, None) for q in sub_questions)\<close>.\<close>

definition od_of_keys :: "string list \<Rightarrow> ordered_dict" where
  "od_of_keys ks = foldl (\<lambda>d k. od_set d k PNone) [] ks"

text \<open>\<^verbatim>\<open>" | ".join(parts)\<close>.\<close>

fun join_bar :: "string list \<Rightarrow> string" where
  "join_bar [] = []"
| "join_bar [x] = x"
| "join_bar (x # y # ys) = x @ '' | '' @ join_bar (y # ys)"

subsection \<open>Questions, markups, preferences\<close>

text \<open>
  A question as the handlers see it: the metadata that \<^verbatim>\<open>get_info\<close> caches, the
  classes that \<^verbatim>\<open>isinstance\<close> finds it in, its options and its sub-questions. The
  classes of the \<^verbatim>\<open>questions\<close> package other than \<^verbatim>\<open>DurationQuestion\<close> are not
  under src/, so nothing is assumed about which class extends which: a question lists
  the classes it is an instance of.
\<close>

datatype question_class =
    BaseOptionGridQuestion | DatetimeQuestion | DateQuestion | TimeQuestion
  | DurationQuestion | BaseOptionQuestion | CheckboxQuestion

record question =
  header :: string
  description :: string
  required :: bool
  classes :: "question_class list"
  options :: "string list"
  sub_questions :: "string list"

definition isinstance :: "question \<Rightarrow> question_class \<Rightarrow> bool" where
  "isinstance q c = (c \<in> set (classes q))"

type_synonym pref_key = "string \<times> string \<times> bool"

text \<open>
  Modelled from the spec: \<^verbatim>\<open>BaseQuestion.get_pref_key\<close> is not under src/. The spec's
  QuestionIdentity is the triple (header, description, requiredFlag), and
  \<^verbatim>\<open>_obtain_question\<close> unpacks the key into exactly these three names.
\<close>

definition get_pref_key :: "question \<Rightarrow> pref_key" where
  "get_pref_key q = (header q, description q, required q)"

text \<open>
  The markup objects built for a question, and \<open>NoMarkup\<close> for Python's
  \<^verbatim>\<open>None\<close> (a question answered by free text). \<open>FreqCustomMarkup\<close> is the markup of
  the scheduler menu. \<open>TimeMarkup\<close> carries whether \<^verbatim>\<open>second=0\<close> was given.
\<close>

datatype markup =
    NoMarkup
  | DatetimeMarkup bool
  | DateMarkup bool
  | TimeMarkup bool bool
  | MenuMarkup bool bool "string list"
  | FreqCustomMarkup

text \<open>
  Modelled from the spec: \<^verbatim>\<open>SavePrefMarkup\<close> is not under src/. The spec's save
  policies are AlwaysSave, NeverSave and AskAgain; \<open>Unrecognised\<close> is any other stored
  value, for which \<^verbatim>\<open>SavePrefMarkup.is_option\<close> is false.
\<close>

datatype save_pref = SaveAlways | NeverSave | AskAgain | Unrecognised string

fun is_option :: "save_pref \<Rightarrow> bool" where
  "is_option (Unrecognised _) = False"
| "is_option _ = True"

text \<open>
  One entry of the per-question preference dictionary: \<^verbatim>\<open>{_PREF_KEY: ..., _ANSWER_KEY: ...}\<close>,
  either key possibly missing. The dictionary itself is an association list in
  insertion order, the order in which Python iterates over its keys.
\<close>

record pref_entry =
  PREF_KEY :: "save_pref option"
  ANSWER_KEY :: "pyval option"

type_synonym local_prefs = "(pref_key \<times> pref_entry) list"

record save_prefs =
  GLOBAL_SAVE_PREF :: "save_pref option"
  LOCAL_SAVE_PREF :: "local_prefs option"

text \<open>\<^verbatim>\<open>prefs[key] = entry\<close> and \<^verbatim>\<open>prefs.pop(key)\<close> on the association list.\<close>

fun prefs_set :: "local_prefs \<Rightarrow> pref_key \<Rightarrow> pref_entry \<Rightarrow> local_prefs" where
  "prefs_set [] k e = [(k, e)]"
| "prefs_set ((k', e') # ps) k e = (if k' = k then (k, e) # ps else (k', e') # prefs_set ps k e)"

definition prefs_pop :: "local_prefs \<Rightarrow> pref_key \<Rightarrow> local_prefs" where
  "prefs_pop ps k = filter (\<lambda>p. fst p \<noteq> k) ps"

subsection \<open>The driver, the scheduler and the trace\<close>

text \<open>
  \<^verbatim>\<open>user_data[_PROCESSOR]\<close> holds the form link (a string) while idle and a
  \<^verbatim>\<open>FormProcessor\<close> while a traversal runs. The processor remembers the link it was
  built from.
\<close>

datatype processor = IdleLink string | FormProcessor string

fun is_FormProcessor :: "processor option \<Rightarrow> bool" where
  "is_FormProcessor (Some (FormProcessor _)) = True"
| "is_FormProcessor _ = False"

text \<open>What \<^verbatim>\<open>processor.get_question(start)\<close> returns.\<close>

datatype fetched = Complete | Unavailable | Fetched question

record datetime =
  dt_year :: nat
  dt_month :: nat
  dt_day :: nat
  dt_hour :: nat
  dt_minute :: nat

text \<open>
  A job of the queue, as the call that registered it: \<^verbatim>\<open>run_repeating(interval,
  first=...)\<close>, \<^verbatim>\<open>run_daily(time)\<close> or \<^verbatim>\<open>run_monthly(time, day)\<close>, each with the
  job's name.
\<close>

datatype trigger =
    Repeating nat datetime
  | Daily "nat \<times> nat"
  | Monthly "nat \<times> nat" nat

record job =
  job_name :: string
  job_trigger :: trigger

datatype job_slot = JobText string | JobObject job

text \<open>
  Messages to the user, by kind; the full wording (question header, description,
  emoji) is left out. The two confirmation prompts carry the formatted answer.
\<close>

datatype notice =
    PleaseWait
  | FormSubmitted
  | SavedAnswerDetected string
  | AnswerRecommendation string
  | PleaseAnswer
  | JobEncounteredError
  | AnswerAutoSaved
  | AnswerAutoDiscarded
  | SaveAnswerPrompt
  | SameKeyboard
  | ConfirmJob string
  | JobScheduled
  | JobAborted

text \<open>
  Every call into the driver and into the chat transport is recorded, oldest first.
\<close>

datatype event =
    Open string
  | GetQuestion bool
  | GetInfo
  | RefreshSection
  | AnswerQuestion "pyval list"
  | SkipQuestion
  | CloseBrowser
  | EditMessage notice
  | SendBugMessage
  | AnswerCallback
  | AlertRequired
  | AlertIdenticalJob

datatype pattern = MatchNothing | MarkupPattern markup | TFPattern

text \<open>
  The world outside the handlers. The driver's answers are sequences: the n-th call of
  a kind gets the n-th answer of that kind, whatever it is, so every behaviour of the
  form is some \<open>driver\<close>. Constants and library functions that the handlers use and
  that are not under src/ are here as well: the skip label of
  \<^verbatim>\<open>BaseOptionMarkup\<close>, which markups are \<^verbatim>\<open>BaseOptionMarkup\<close> instances, the link a
  browser reports, the frequency labels of \<^verbatim>\<open>FreqMarkup\<close>,
  \<^verbatim>\<open>FreqCustomMarkup.valid_freq\<close> and \<^verbatim>\<open>datetime.strptime\<close>.
\<close>

record driver =
  get_question_result :: "nat \<Rightarrow> fetched"
  get_info_result :: "nat \<Rightarrow> bool option"
  refresh_section_result :: "nat \<Rightarrow> bool"
  answer_question_result :: "nat \<Rightarrow> bool option"
  get_skip :: string
  is_BaseOptionMarkup :: "markup \<Rightarrow> bool"
  get_link :: "string \<Rightarrow> string"
  get_hourly :: string
  get_daily :: string
  get_weekly :: string
  get_monthly :: string
  valid_freq :: "int \<Rightarrow> int \<Rightarrow> int \<Rightarrow> bool"
  strptime :: "string \<Rightarrow> datetime option"

text \<open>
  The session: the entries of \<^verbatim>\<open>context.user_data\<close> that the handlers use (a missing
  key is \<open>None\<close>), the store of \<^verbatim>\<open>OrderedDict\<close> objects, the patterns of the two
  dynamic callback handlers, the job queue, the trace and the number of driver calls
  made so far.
\<close>

record session =
  PROCESSOR :: "processor option"
  CURRENT_QUESTION :: "question option"
  CURRENT_ANSWER :: "pyval option"
  CURRENT_MARKUP :: "markup option"
  SAVE_PREFS :: "save_prefs option"
  CURRENT_JOB :: "job_slot option"
  heap :: "addr \<Rightarrow> ordered_dict"
  next_addr :: addr
  answer_handler_pattern :: pattern
  confirm_handler_pattern :: pattern
  job_queue :: "job list"
  trace :: "event list"
  n_get_question :: nat
  n_get_info :: nat
  n_refresh_section :: nat
  n_answer_question :: nat

definition emit :: "event \<Rightarrow> session \<Rightarrow> session" where
  "emit e s = s\<lparr>trace := trace s @ [e]\<rparr>"

text \<open>Python truthiness of a value (\<^verbatim>\<open>if answer:\<close>).\<close>

fun truthy :: "session \<Rightarrow> pyval \<Rightarrow> bool" where
  "truthy s PNone = False"
| "truthy s (PStr x) = (x \<noteq> [])"
| "truthy s (PTuple xs) = (xs \<noteq> [])"
| "truthy s (PDict a) = (heap s a \<noteq> [])"

fun is_PDict :: "pyval \<Rightarrow> bool" where
  "is_PDict (PDict _) = True"
| "is_PDict _ = False"

subsection \<open>How a handler proceeds\<close>

datatype conv_state =
    STOPPING | RETURN | SKIP_OR_ANSWER | CONFIRM_SUBMIT | SAVE_ANSWER
  | SELECT_START | CONFIRM_ADD | CANCEL

datatype exn = KeyError | AssertionError | AttributeError

text \<open>
  A handler call ends by returning a conversation state or by raising; either way the
  session it leaves is kept.
\<close>

datatype result = Return conv_state session | Raise exn session

fun final :: "result \<Rightarrow> session" where
  "final (Return st s) = s"
| "final (Raise e s) = s"

text \<open>
  A region of a handler either goes on to the next region with a value, ends the
  handler, asks for the handler to be entered again (the tail call
  \<^verbatim>\<open>return _obtain_question(update, context)\<close>), or has used up its fuel.
\<close>

datatype 'a flow = Next 'a session | Exit result | Again session | OutOfFuel

fun and_then :: "'a flow \<Rightarrow> ('a \<Rightarrow> session \<Rightarrow> 'b flow) \<Rightarrow> 'b flow" where
  "and_then (Next x s) f = f x s"
| "and_then (Exit r) f = Exit r"
| "and_then (Again s) f = Again s"
| "and_then OutOfFuel f = OutOfFuel"

section \<open>The traversal engine: \<^verbatim>\<open>_obtain_question\<close>\<close>

text \<open>
  The handlers are modelled as they are written, without the \<^verbatim>\<open>_handle_background\<close>
  decorator, which is not under src/. Every handler here is registered as a callback
  query handler (or called from one), so \<^verbatim>\<open>update.callback_query\<close> and its message
  exist. Calls into the chat transport are recorded and taken to succeed.
\<close>

subsection \<open>Calls into the driver\<close>

definition get_question :: "driver \<Rightarrow> bool \<Rightarrow> session \<Rightarrow> fetched \<times> session" where
  "get_question E start s =
     (get_question_result E (n_get_question s),
      s\<lparr>trace := trace s @ [GetQuestion start], n_get_question := Suc (n_get_question s)\<rparr>)"

definition get_info :: "driver \<Rightarrow> session \<Rightarrow> bool option \<times> session" where
  "get_info E s =
     (get_info_result E (n_get_info s),
      s\<lparr>trace := trace s @ [GetInfo], n_get_info := Suc (n_get_info s)\<rparr>)"

definition refresh_section :: "driver \<Rightarrow> session \<Rightarrow> bool \<times> session" where
  "refresh_section E s =
     (refresh_section_result E (n_refresh_section s),
      s\<lparr>trace := trace s @ [RefreshSection], n_refresh_section := Suc (n_refresh_section s)\<rparr>)"

text \<open>
  \<^verbatim>\<open>_submit_to_google_forms(processor, *answers)\<close>: no answers is a success without a
  call; a skip label in front takes the driver's skip path; otherwise all answers go to
  the driver in order.
\<close>

definition submit_to_google_forms ::
    "driver \<Rightarrow> pyval list \<Rightarrow> session \<Rightarrow> bool option \<times> session" where
  "submit_to_google_forms E answers s =
     (case answers of
        [] \<Rightarrow> (Some True, s)
      | a # _ \<Rightarrow>
          (answer_question_result E (n_answer_question s),
           s\<lparr>trace := trace s @
                 [if a = PStr (get_skip E) \<or> a = PStr ''/skip'' then SkipQuestion
                  else AnswerQuestion answers],
              n_answer_question := Suc (n_answer_question s)\<rparr>))"

text \<open>
  The arguments a stored answer is submitted with: the values of an
  \<^verbatim>\<open>OrderedDict\<close> in order, the parts of a tuple in order, and \<^verbatim>\<open>str(answer)\<close>
  for anything else.
\<close>

fun answer_parts :: "session \<Rightarrow> pyval \<Rightarrow> pyval list" where
  "answer_parts s (PDict a) = map snd (heap s a)"
| "answer_parts s (PTuple xs) = map PStr xs"
| "answer_parts s (PStr x) = [PStr x]"
| "answer_parts s PNone = [PStr ''None'']"

definition remove_current_pointers :: "session \<Rightarrow> session" where
  "remove_current_pointers s = s\<lparr>CURRENT_QUESTION := None, CURRENT_ANSWER := None\<rparr>"

subsection \<open>Initialisation and the processor\<close>

text \<open>
  The assertion that \<^verbatim>\<open>_PROCESSOR\<close> is in the user data, the loading screen, and
  the \<^verbatim>\<open>FormProcessor\<close> built from the idle link. The value passed on is the link the
  processor was built from and the \<^verbatim>\<open>start\<close> flag.
\<close>

definition open_processor :: "session \<Rightarrow> (string \<times> bool) flow" where
  "open_processor s =
     (case PROCESSOR s of
        None \<Rightarrow> Exit (Return STOPPING (emit SendBugMessage s))
      | Some (FormProcessor l) \<Rightarrow> Next (l, False) (emit (EditMessage PleaseWait) s)
      | Some (IdleLink l) \<Rightarrow>
          Next (l, True)
            (emit AnswerCallback
              (emit (Open l)
                ((emit (EditMessage PleaseWait) s)\<lparr>PROCESSOR := Some (FormProcessor l)\<rparr>))))"

subsection \<open>Obtaining the next question\<close>

text \<open>
  \<^verbatim>\<open>while result is False\<close>: the section is crawled again and the metadata read
  again, for as long as \<^verbatim>\<open>get_info\<close> returns \<^verbatim>\<open>False\<close> and the crawl finds an
  element. The loop may run forever, so it takes fuel.
\<close>

fun refresh_loop :: "driver \<Rightarrow> nat \<Rightarrow> bool option \<Rightarrow> session \<Rightarrow> (bool option) flow" where
  "refresh_loop E 0 result s = (if result = Some False then OutOfFuel else Next result s)"
| "refresh_loop E (Suc n) result s =
     (if result = Some False then
        (case refresh_section E s of
           (element, s1) \<Rightarrow>
             if \<not> element then Next None s1
             else (case get_info E s1 of (result', s2) \<Rightarrow> refresh_loop E n result' s2))
      else Next result s)"

definition release :: "driver \<Rightarrow> string \<Rightarrow> session \<Rightarrow> session" where
  "release E l s = (emit CloseBrowser s)\<lparr>PROCESSOR := Some (IdleLink (get_link E l))\<rparr>"

text \<open>
  "Process the question": the metadata is read, the loop runs, and a result that is
  not true ends the handler in the stopping state.
\<close>

definition read_metadata :: "driver \<Rightarrow> nat \<Rightarrow> question \<Rightarrow> session \<Rightarrow> question flow" where
  "read_metadata E n q s =
     (case get_info E s of
        (result, s1) \<Rightarrow>
          and_then (refresh_loop E n result s1)
            (\<lambda>result' s2.
               if result' = Some True then Next q s2
               else Exit (Return STOPPING (emit SendBugMessage s2))))"

definition next_question ::
    "driver \<Rightarrow> nat \<Rightarrow> string \<Rightarrow> bool \<Rightarrow> session \<Rightarrow> question flow" where
  "next_question E n l start s =
     (case CURRENT_QUESTION s of
        Some q \<Rightarrow> Next q s
      | None \<Rightarrow>
          (case get_question E start s of
             (Complete, s1) \<Rightarrow>
               Exit (Return RETURN
                 ((release E l (emit (EditMessage FormSubmitted) s1))
                    \<lparr>answer_handler_pattern := MatchNothing\<rparr>))
           | (Unavailable, s1) \<Rightarrow> Exit (Return STOPPING (emit SendBugMessage s1))
           | (Fetched q, s1) \<Rightarrow> read_metadata E n q (s1\<lparr>CURRENT_QUESTION := Some q\<rparr>)))"

subsection \<open>The previously stored answer\<close>

text \<open>
  The close-match loop over the keys of the per-question preferences, in their order:
  the first key with the question's header and with its description or its required
  flag is taken, and the loop breaks.
\<close>

fun close_match :: "pref_key \<Rightarrow> local_prefs \<Rightarrow> (pref_key \<times> pref_entry) option" where
  "close_match key [] = None"
| "close_match key ((pref_key, entry) # prefs) =
     (case key of
        (hdr, descr, req) \<Rightarrow>
          if hdr = fst pref_key \<and> (descr = fst (snd pref_key) \<or> req = snd (snd pref_key))
          then Some (pref_key, entry)
          else close_match key prefs)"

definition stored_answer :: "pref_entry \<Rightarrow> pyval" where
  "stored_answer entry = (case ANSWER_KEY entry of None \<Rightarrow> PNone | Some v \<Rightarrow> v)"

text \<open>
  The region "Obtain previously-stored answer, if any". It passes on the local
  variables \<^verbatim>\<open>answer\<close> and \<^verbatim>\<open>preference\<close>, or submits an always-saved answer and
  asks for the next question, or stops.
\<close>

definition saved_answer ::
    "driver \<Rightarrow> bool \<Rightarrow> question \<Rightarrow> session \<Rightarrow> (pyval \<times> save_pref option) flow" where
  "saved_answer E to_process q s =
     (if \<not> to_process then Next (PNone, None) s
      else
        (case SAVE_PREFS s of
           None \<Rightarrow> Next (PNone, None) s
         | Some sp \<Rightarrow>
             (case LOCAL_SAVE_PREF sp of
                None \<Rightarrow> Next (PNone, None) s
              | Some prefs \<Rightarrow>
                  (case map_of prefs (get_pref_key q) of
                     Some entry \<Rightarrow>
                       (case PREF_KEY entry of
                          None \<Rightarrow> Exit (Return STOPPING (emit SendBugMessage s))
                        | Some preference \<Rightarrow>
                            if \<not> is_option preference
                            then Exit (Return STOPPING (emit SendBugMessage s))
                            else if truthy s (stored_answer entry) \<and> preference = SaveAlways
                            then
                              (case submit_to_google_forms E
                                      (answer_parts s (stored_answer entry)) s of
                                 (result, s1) \<Rightarrow>
                                   if result = Some True
                                   then Again (remove_current_pointers s1)
                                   else Exit (Return STOPPING s1))
                            else Next (stored_answer entry, Some preference) s)
                   | None \<Rightarrow>
                       (case close_match (get_pref_key q) prefs of
                          None \<Rightarrow> Next (PNone, None) s
                        | Some (pref_key, entry) \<Rightarrow> Next (stored_answer entry, None) s)))))"

subsection \<open>Grid questions\<close>

definition alloc :: "ordered_dict \<Rightarrow> session \<Rightarrow> addr \<times> session" where
  "alloc d s =
     (next_addr s, s\<lparr>heap := (heap s)(next_addr s := d), next_addr := Suc (next_addr s)\<rparr>)"

text \<open>The first key whose value is \<^verbatim>\<open>None\<close>: the next sub-question to process.\<close>

fun first_unanswered :: "ordered_dict \<Rightarrow> string option" where
  "first_unanswered [] = None"
| "first_unanswered ((k, v) # d) = (if v = PNone then Some k else first_unanswered d)"

text \<open>
  \<^verbatim>\<open>user_data.get(_SAVE_PREFS, {}).get(_LOCAL_SAVE_PREF, {}).pop(key)\<close>, which raises
  \<^verbatim>\<open>KeyError\<close> when the key is in no such dictionary.
\<close>

definition pop_local_pref :: "pref_key \<Rightarrow> session \<Rightarrow> session option" where
  "pop_local_pref key s =
     (case SAVE_PREFS s of
        None \<Rightarrow> None
      | Some sp \<Rightarrow>
          (case LOCAL_SAVE_PREF sp of
             None \<Rightarrow> None
           | Some prefs \<Rightarrow>
               if key \<in> fst ` set prefs
               then Some (s\<lparr>SAVE_PREFS := Some (sp\<lparr>LOCAL_SAVE_PREF := Some (prefs_pop prefs key)\<rparr>)\<rparr>)
               else None))"

text \<open>
  The part of the region "Display the question metadata" that is for grid questions.
  It passes on the sub-question (none for other questions) and the answer, which is
  dropped, with its preference entry, when it is not a dictionary.
\<close>

definition grid_region :: "question \<Rightarrow> pyval \<Rightarrow> session \<Rightarrow> (string option \<times> pyval) flow" where
  "grid_region q answer s =
     (if \<not> isinstance q BaseOptionGridQuestion then Next (None, answer) s
      else
        (case (if CURRENT_ANSWER s = None
               then (case alloc (od_of_keys (sub_questions q)) s of
                       (a, s') \<Rightarrow> s'\<lparr>CURRENT_ANSWER := Some (PDict a)\<rparr>)
               else s) of
           s1 \<Rightarrow>
             (case CURRENT_ANSWER s1 of
                Some (PDict c) \<Rightarrow>
                  (case first_unanswered (heap s1 c) of
                     None \<Rightarrow> Exit (Return STOPPING (emit SendBugMessage s1))
                   | Some sub_question \<Rightarrow>
                       if truthy s1 answer \<and> \<not> is_PDict answer
                       then (case pop_local_pref (get_pref_key q) s1 of
                               None \<Rightarrow> Exit (Raise KeyError s1)
                             | Some s2 \<Rightarrow> Next (Some sub_question, PNone) s2)
                       else Next (Some sub_question, answer) s1)
              | _ \<Rightarrow> Exit (Raise AttributeError s1))))"

subsection \<open>Recommending a saved answer\<close>

definition answer_text :: "driver \<Rightarrow> session \<Rightarrow> pyval \<Rightarrow> string" where
  "answer_text E s answer =
     (if answer = PStr (get_skip E) \<or> \<not> truthy s answer then ''Skipping the question''
      else (case answer of
              PStr x \<Rightarrow> x
            | PTuple xs \<Rightarrow> join_bar xs
            | PDict a \<Rightarrow> join_bar (map fst (heap s a))
            | PNone \<Rightarrow> ''Skipping the question''))"

text \<open>
  For a grid question the saved answer of the sub-question is looked up in the saved
  dictionary and written into the current answer.
\<close>

definition sub_answer :: "question \<Rightarrow> string option \<Rightarrow> pyval \<Rightarrow> session \<Rightarrow> pyval flow" where
  "sub_answer q sub answer s =
     (if \<not> isinstance q BaseOptionGridQuestion then Next answer s
      else
        (case (answer, CURRENT_ANSWER s, sub) of
           (PDict a, Some (PDict c), Some k) \<Rightarrow>
             Next (od_get (heap s a) k)
               (s\<lparr>heap := (heap s)(c := od_set (heap s c) k (od_get (heap s a) k))\<rparr>)
         | _ \<Rightarrow> Exit (Raise AssertionError s)))"

text \<open>
  The region "Format saved answers": with a true saved answer the user is asked to
  confirm it, as a saved answer when the preference is to ask again, as a
  recommendation otherwise, and the handler returns.
\<close>

definition recommend ::
    "driver \<Rightarrow> bool \<Rightarrow> question \<Rightarrow> string option \<Rightarrow> pyval \<Rightarrow> save_pref option \<Rightarrow> session
      \<Rightarrow> unit flow" where
  "recommend E to_process q sub answer preference s =
     (if to_process \<and> truthy s answer then
        and_then
          (sub_answer q sub answer
             (if CURRENT_ANSWER s = None then s\<lparr>CURRENT_ANSWER := Some answer\<rparr> else s))
          (\<lambda>answer' s1.
             Exit (Return CONFIRM_SUBMIT
               ((emit (EditMessage
                        (if preference = Some AskAgain
                         then SavedAnswerDetected (answer_text E s1 answer')
                         else AnswerRecommendation (answer_text E s1 answer'))) s1)
                  \<lparr>confirm_handler_pattern := TFPattern\<rparr>)))
      else Next () s)"

subsection \<open>Prompting for input\<close>

definition markup_for :: "question \<Rightarrow> markup" where
  "markup_for q =
     (if isinstance q DatetimeQuestion then DatetimeMarkup (required q)
      else if isinstance q DateQuestion then DateMarkup (required q)
      else if isinstance q TimeQuestion then TimeMarkup (required q) False
      else if isinstance q DurationQuestion then TimeMarkup (required q) True
      else if isinstance q BaseOptionQuestion
        then MenuMarkup (required q) (isinstance q CheckboxQuestion) (options q)
      else NoMarkup)"

definition prompt :: "markup \<Rightarrow> session \<Rightarrow> result" where
  "prompt m s =
     Return SKIP_OR_ANSWER
       (emit (EditMessage PleaseAnswer)
          (if m \<noteq> NoMarkup then s\<lparr>answer_handler_pattern := MarkupPattern m\<rparr> else s))"

definition ask :: "driver \<Rightarrow> question \<Rightarrow> session \<Rightarrow> result" where
  "ask E q s =
     (case CURRENT_MARKUP s of
        Some m \<Rightarrow>
          if m = NoMarkup \<or> \<not> is_BaseOptionMarkup E m then Return STOPPING s
          else prompt m s
      | None \<Rightarrow> prompt (markup_for q) (s\<lparr>CURRENT_MARKUP := Some (markup_for q)\<rparr>))"

subsection \<open>The handler\<close>

definition after_question :: "driver \<Rightarrow> bool \<Rightarrow> question \<Rightarrow> session \<Rightarrow> unit flow" where
  "after_question E to_process q s =
     and_then (saved_answer E to_process q s)
       (\<lambda>(answer, preference) s1.
          and_then (grid_region q answer s1)
            (\<lambda>(sub, answer') s2.
               and_then (recommend E to_process q sub answer' preference s2)
                 (\<lambda>_ s3. Exit (ask E q s3))))"

definition acquire :: "driver \<Rightarrow> nat \<Rightarrow> session \<Rightarrow> question flow" where
  "acquire E n s =
     and_then (open_processor s) (\<lambda>(l, start) s1. next_question E n l start s1)"

definition obtain_body :: "driver \<Rightarrow> nat \<Rightarrow> bool \<Rightarrow> session \<Rightarrow> unit flow" where
  "obtain_body E n to_process s =
     and_then (acquire E n s) (\<lambda>q s1. after_question E to_process q s1)"

text \<open>
  \<^verbatim>\<open>_obtain_question(update, context, to_process=True)\<close>. The tail call after an
  always-saved answer enters the handler again with the default \<^verbatim>\<open>to_process\<close>.
  Nothing bounds the number of such calls or of the rounds of the refresh loop, so
  the handler takes fuel: \<open>None\<close> is a run that has not returned within it.
\<close>

fun obtain_question :: "driver \<Rightarrow> nat \<Rightarrow> bool \<Rightarrow> session \<Rightarrow> result option" where
  "obtain_question E 0 to_process s = None"
| "obtain_question E (Suc n) to_process s =
     (case obtain_body E n to_process s of
        Exit r \<Rightarrow> Some r
      | Again s' \<Rightarrow> obtain_question E n True s'
      | OutOfFuel \<Rightarrow> None
      | Next _ _ \<Rightarrow> None)"

section \<open>The handlers around the engine\<close>

subsection \<open>Storing the user's input (\<^verbatim>\<open>_process_answer\<close>, "Save answer into user data")\<close>

text \<open>
  For a grid question the input becomes the answer of the first sub-question that has
  none (a skip is stored as the empty string); otherwise it becomes the current
  answer.
\<close>

definition store_answer :: "driver \<Rightarrow> pyval \<Rightarrow> session \<Rightarrow> session" where
  "store_answer E input s =
     (case CURRENT_ANSWER s of
        Some (PDict a) \<Rightarrow>
          (case first_unanswered (heap s a) of
             None \<Rightarrow> s
           | Some key \<Rightarrow>
               s\<lparr>heap := (heap s)
                    (a := od_set (heap s a) key
                            (if input = PStr (get_skip E) \<or> input = PStr ''/skip''
                             then PStr [] else input))\<rparr>)
      | _ \<Rightarrow> s\<lparr>CURRENT_ANSWER := Some input\<rparr>)"

subsection \<open>\<^verbatim>\<open>_submit_answer\<close>\<close>

text \<open>
  On a rejected confirmation the keys of a grid answer are walked backwards, and the
  first one that has an answer is reset to \<^verbatim>\<open>None\<close>.
\<close>

definition last_answered :: "ordered_dict \<Rightarrow> string option" where
  "last_answered d = find (\<lambda>k. od_get d k \<noteq> PNone) (rev (map fst d))"

definition clear_last :: "ordered_dict \<Rightarrow> ordered_dict" where
  "clear_last d = (case last_answered d of None \<Rightarrow> d | Some k \<Rightarrow> od_set d k PNone)"

definition reject_answer :: "session \<Rightarrow> session" where
  "reject_answer s =
     (case CURRENT_ANSWER s of
        Some (PDict a) \<Rightarrow> s\<lparr>heap := (heap s)(a := clear_last (heap s a))\<rparr>
      | _ \<Rightarrow> s)"

text \<open>
  The region "Save answer": the preference entry of the question is created from the
  global preference when it is missing.
\<close>

definition global_pref :: "session \<Rightarrow> save_pref" where
  "global_pref s =
     (case SAVE_PREFS s of
        None \<Rightarrow> AskAgain
      | Some sp \<Rightarrow> (case GLOBAL_SAVE_PREF sp of None \<Rightarrow> AskAgain | Some p \<Rightarrow> p))"

definition default_entry :: "session \<Rightarrow> pref_entry" where
  "default_entry s = \<lparr>PREF_KEY = Some (global_pref s), ANSWER_KEY = None\<rparr>"

definition ensure_pref :: "pref_key \<Rightarrow> session \<Rightarrow> session" where
  "ensure_pref key s =
     (case SAVE_PREFS s of
        None \<Rightarrow>
          s\<lparr>SAVE_PREFS := Some \<lparr>GLOBAL_SAVE_PREF = Some AskAgain,
                               LOCAL_SAVE_PREF = Some [(key, default_entry s)]\<rparr>\<rparr>
      | Some sp \<Rightarrow>
          (case LOCAL_SAVE_PREF sp of
             None \<Rightarrow> s\<lparr>SAVE_PREFS := Some (sp\<lparr>LOCAL_SAVE_PREF := Some [(key, default_entry s)]\<rparr>)\<rparr>
           | Some prefs \<Rightarrow>
               if key \<in> fst ` set prefs then s
               else s\<lparr>SAVE_PREFS :=
                      Some (sp\<lparr>LOCAL_SAVE_PREF := Some (prefs_set prefs key (default_entry s))\<rparr>)\<rparr>))"

definition local_prefs_of :: "session \<Rightarrow> local_prefs" where
  "local_prefs_of s =
     (case SAVE_PREFS s of
        None \<Rightarrow> []
      | Some sp \<Rightarrow> (case LOCAL_SAVE_PREF sp of None \<Rightarrow> [] | Some prefs \<Rightarrow> prefs))"

text \<open>\<^verbatim>\<open>question_pref[_ANSWER_KEY] = user_data.get(_CURRENT_ANSWER)\<close>.\<close>

definition save_current_answer :: "pref_key \<Rightarrow> session \<Rightarrow> session" where
  "save_current_answer key s =
     (case SAVE_PREFS s of
        None \<Rightarrow> s
      | Some sp \<Rightarrow>
          (case LOCAL_SAVE_PREF sp of
             None \<Rightarrow> s
           | Some prefs \<Rightarrow>
               (case map_of prefs key of
                  None \<Rightarrow> s
                | Some entry \<Rightarrow>
                    s\<lparr>SAVE_PREFS :=
                        Some (sp\<lparr>LOCAL_SAVE_PREF :=
                          Some (prefs_set prefs key
                                  (entry\<lparr>ANSWER_KEY :=
                                     Some (case CURRENT_ANSWER s of
                                             None \<Rightarrow> PNone | Some v \<Rightarrow> v)\<rparr>))\<rparr>)\<rparr>)))"

definition save_region :: "driver \<Rightarrow> nat \<Rightarrow> question \<Rightarrow> session \<Rightarrow> result option" where
  "save_region E n q s =
     (case ensure_pref (get_pref_key q) s of
        s1 \<Rightarrow>
          (case map_of (local_prefs_of s1) (get_pref_key q) of
             None \<Rightarrow> Some (Raise AttributeError s1)
           | Some question_pref \<Rightarrow>
               (case PREF_KEY question_pref of
                  None \<Rightarrow> Some (Return STOPPING (emit SendBugMessage s1))
                | Some p \<Rightarrow>
                    if \<not> is_option p then Some (Return STOPPING (emit SendBugMessage s1))
                    else if p = SaveAlways then
                      obtain_question E n True
                        (remove_current_pointers
                           (emit (EditMessage AnswerAutoSaved)
                              (save_current_answer (get_pref_key q) s1)))
                    else if p = NeverSave then
                      obtain_question E n True
                        (remove_current_pointers (emit (EditMessage AnswerAutoDiscarded) s1))
                    else Some (Return SAVE_ANSWER (emit (EditMessage SaveAnswerPrompt) s1)))))"

text \<open>
  \<^verbatim>\<open>_submit_answer\<close>; \<open>confirm\<close> is \<^verbatim>\<open>TFMarkup.confirm(update.callback_query.data)\<close>.
\<close>

definition submit_answer :: "driver \<Rightarrow> nat \<Rightarrow> bool option \<Rightarrow> session \<Rightarrow> result option" where
  "submit_answer E n confirm s =
     (case (CURRENT_ANSWER s, CURRENT_QUESTION s) of
        (Some answer, Some q) \<Rightarrow>
          if \<not> is_FormProcessor (PROCESSOR s) then Some (Return STOPPING (emit SendBugMessage s))
          else
            (case (emit AnswerCallback s)
                     \<lparr>CURRENT_MARKUP := None, confirm_handler_pattern := MatchNothing\<rparr> of
               s1 \<Rightarrow>
                 (case confirm of
                    None \<Rightarrow> Some (Return STOPPING s1)
                  | Some True \<Rightarrow>
                      if (case answer of PDict a \<Rightarrow> PNone \<in> snd ` set (heap s1 a) | _ \<Rightarrow> False)
                      then obtain_question E n True s1
                      else
                        (case submit_to_google_forms E (answer_parts s1 answer)
                                (emit (EditMessage PleaseWait) s1) of
                           (result, s2) \<Rightarrow>
                             if result \<noteq> Some True then Some (Return STOPPING s2)
                             else save_region E n q s2)
                  | Some False \<Rightarrow> obtain_question E n False (reject_answer s1)))
      | _ \<Rightarrow> Some (Return STOPPING (emit SendBugMessage s)))"

subsection \<open>\<^verbatim>\<open>_save_answer\<close>\<close>

definition save_answer :: "driver \<Rightarrow> nat \<Rightarrow> bool option \<Rightarrow> session \<Rightarrow> result option" where
  "save_answer E n confirm s =
     (case (CURRENT_ANSWER s, CURRENT_QUESTION s) of
        (Some answer, Some q) \<Rightarrow>
          if map_option PREF_KEY (map_of (local_prefs_of s) (get_pref_key q)) \<noteq> Some (Some AskAgain)
          then Some (Return STOPPING (emit SendBugMessage s))
          else
            (case confirm of
               None \<Rightarrow> Some (Return STOPPING (emit AnswerCallback s))
             | Some yes \<Rightarrow>
                 obtain_question E n True
                   (remove_current_pointers
                      (if yes then save_current_answer (get_pref_key q) (emit AnswerCallback s)
                       else emit AnswerCallback s)))
      | _ \<Rightarrow> Some (Return STOPPING (emit SendBugMessage s)))"

subsection \<open>\<^verbatim>\<open>_auto_submit\<close>: a scheduled job fires\<close>

text \<open>
  The job's context is the pair (update, context) that \<^verbatim>\<open>_confirm_add\<close> registered
  it with, so the assertions of the initialisation hold. The callback returns nothing:
  it finishes, or an exception of \<^verbatim>\<open>_obtain_question\<close> passes through it.
\<close>

datatype fired = Finished session | Crashed exn session

fun after_fire :: "fired \<Rightarrow> session" where
  "after_fire (Finished s) = s"
| "after_fire (Crashed e s) = s"

definition clean_up :: "driver \<Rightarrow> session \<Rightarrow> session" where
  "clean_up E s =
     (case remove_current_pointers s of
        s1 \<Rightarrow>
          emit (EditMessage JobEncounteredError)
            ((case PROCESSOR s1 of
                Some (FormProcessor l) \<Rightarrow> release E l s1
              | _ \<Rightarrow> s1)\<lparr>answer_handler_pattern := MatchNothing\<rparr>))"

definition auto_submit :: "driver \<Rightarrow> nat \<Rightarrow> session \<Rightarrow> fired option" where
  "auto_submit E n s =
     (if is_FormProcessor (PROCESSOR s) then Some (Finished s)
      else
        (case obtain_question E n True s of
           None \<Rightarrow> None
         | Some (Raise e s1) \<Rightarrow> Some (Crashed e s1)
         | Some (Return st s1) \<Rightarrow>
             if st = STOPPING then Some (Finished (clean_up E s1)) else Some (Finished s1)))"

section \<open>The scheduler menu: \<^verbatim>\<open>_start_date\<close> and \<^verbatim>\<open>_confirm_add\<close>\<close>

subsection \<open>Text\<close>

text \<open>\<^verbatim>\<open>text.split(sep)\<close> for a separator that is not empty.\<close>

function split_str :: "string \<Rightarrow> string \<Rightarrow> string list" where
  "split_str sep [] = [[]]"
| "split_str sep (c # cs) =
     (if sep \<noteq> [] \<and> take (length sep) (c # cs) = sep
      then [] # split_str sep (drop (length sep) (c # cs))
      else (case split_str sep cs of
              p # ps \<Rightarrow> (c # p) # ps
            | [] \<Rightarrow> [[c]]))"
  by pat_completeness auto
termination
  by (relation "measure (\<lambda>(sep, s). length s)") auto

text \<open>\<^verbatim>\<open>re.findall(r"[0-9]+", text)\<close>: the maximal runs of digits.\<close>

function digit_runs :: "string \<Rightarrow> string list" where
  "digit_runs [] = []"
| "digit_runs (c # cs) =
     (if is_digit c then takeWhile is_digit (c # cs) # digit_runs (dropWhile is_digit cs)
      else digit_runs cs)"
  by pat_completeness auto
termination
  by (relation "measure length") (auto simp: length_dropWhile_le less_Suc_eq_le)

subsection \<open>The job queue\<close>

definition get_jobs_by_name :: "session \<Rightarrow> string \<Rightarrow> job list" where
  "get_jobs_by_name s name = filter (\<lambda>j. job_name j = name) (job_queue s)"

definition add_job :: "string \<Rightarrow> trigger \<Rightarrow> session \<Rightarrow> session" where
  "add_job name t s = s\<lparr>job_queue := job_queue s @ [\<lparr>job_name = name, job_trigger = t\<rparr>]\<rparr>"

subsection \<open>\<^verbatim>\<open>_start_date\<close>\<close>

text \<open>
  What \<^verbatim>\<open>DatetimeMarkup.perform_action\<close> gave for the callback data: the warning that
  a choice is required, a new keyboard, the chosen start as text, or anything else.
\<close>

datatype chosen = RequiredWarning | Keyboard | Chosen string | Nothing

fun is_DatetimeMarkup :: "markup option \<Rightarrow> bool" where
  "is_DatetimeMarkup (Some (DatetimeMarkup _)) = True"
| "is_DatetimeMarkup _ = False"

definition derived_name :: "string \<Rightarrow> string \<Rightarrow> string" where
  "derived_name cadence start = cadence @ '', starting from '' @ start"

definition start_date :: "chosen \<Rightarrow> session \<Rightarrow> result" where
  "start_date picked s =
     (case CURRENT_JOB s of
        Some (JobText cadence) \<Rightarrow>
          if \<not> is_DatetimeMarkup (CURRENT_MARKUP s) then Return STOPPING (emit SendBugMessage s)
          else
            (case picked of
               RequiredWarning \<Rightarrow> Return SELECT_START (emit AlertRequired s)
             | Keyboard \<Rightarrow>
                 Return SELECT_START (emit AnswerCallback (emit (EditMessage SameKeyboard) s))
             | Chosen start \<Rightarrow>
                 if get_jobs_by_name s (derived_name cadence start) \<noteq> []
                 then Return SELECT_START (emit AlertIdenticalJob s)
                 else Return CONFIRM_ADD
                        (emit (EditMessage (ConfirmJob (derived_name cadence start)))
                           ((emit AnswerCallback s)
                              \<lparr>CURRENT_MARKUP := None,
                               CURRENT_JOB := Some (JobText (derived_name cadence start))\<rparr>))
             | Nothing \<Rightarrow> Return SELECT_START (emit AnswerCallback s))
      | _ \<Rightarrow> Return STOPPING (emit SendBugMessage s))"

subsection \<open>\<^verbatim>\<open>_confirm_add\<close>\<close>

text \<open>
  The trigger registered for a cadence and a start: hourly, weekly and custom jobs
  repeat from the start; a daily job takes the start's time of day, a monthly job
  its time of day and its day of the month. A custom cadence that does not hold three
  numbers, or that \<^verbatim>\<open>valid_freq\<close> refuses, raises \<^verbatim>\<open>ValueError\<close>, here \<open>None\<close>.
\<close>

definition trigger_for :: "driver \<Rightarrow> string \<Rightarrow> datetime \<Rightarrow> trigger option" where
  "trigger_for E freq start_datetime =
     (if freq = get_hourly E then Some (Repeating (60 * 60) start_datetime)
      else if freq = get_daily E
        then Some (Daily (dt_hour start_datetime, dt_minute start_datetime))
      else if freq = get_weekly E then Some (Repeating (60 * 60 * 24 * 7) start_datetime)
      else if freq = get_monthly E
        then Some (Monthly (dt_hour start_datetime, dt_minute start_datetime)
                     (dt_day start_datetime))
      else
        (case map py_int (digit_runs freq) of
           [Some days, Some hours, Some minutes] \<Rightarrow>
             if valid_freq E days hours minutes
             then Some (Repeating (60 * ((nat days * 24 + nat hours) * 60 + nat minutes))
                          start_datetime)
             else None
         | _ \<Rightarrow> None))"

text \<open>\<open>confirm\<close> is \<^verbatim>\<open>TFMarkup.confirm(update.callback_query.data)\<close>.\<close>

definition confirm_add :: "driver \<Rightarrow> bool option \<Rightarrow> session \<Rightarrow> result" where
  "confirm_add E confirm s =
     (case CURRENT_JOB s of
        Some (JobText name) \<Rightarrow>
          (case split_str '', starting from '' name of
             [freq, start] \<Rightarrow>
               (case emit AnswerCallback s of
                  s1 \<Rightarrow>
                    (case confirm of
                       None \<Rightarrow> Return STOPPING (emit SendBugMessage s1)
                     | Some yes \<Rightarrow>
                         (case strptime E start of
                            None \<Rightarrow> Return STOPPING (emit SendBugMessage s1)
                          | Some start_datetime \<Rightarrow>
                              if yes then
                                (case trigger_for E freq start_datetime of
                                   None \<Rightarrow> Return STOPPING (emit SendBugMessage s1)
                                 | Some t \<Rightarrow>
                                     Return CANCEL
                                       (emit (EditMessage JobScheduled)
                                          ((add_job name t s1)\<lparr>CURRENT_JOB := None\<rparr>)))
                              else
                                Return CANCEL
                                  (emit (EditMessage JobAborted) (s1\<lparr>CURRENT_JOB := None\<rparr>)))))
           | _ \<Rightarrow> Return STOPPING (emit SendBugMessage s))
      | _ \<Rightarrow> Return STOPPING (emit SendBugMessage s))"

subsection \<open>The observable points of a session\<close>

text \<open>
  One step of a session is one call of a handler of the traversal or of the
  scheduler, with any input and any fuel, taken to its end.
\<close>

inductive step :: "driver \<Rightarrow> session \<Rightarrow> session \<Rightarrow> bool" for E :: driver where
  step_obtain: "obtain_question E n to_process s = Some r \<Longrightarrow> step E s (final r)"
| step_submit: "submit_answer E n confirm s = Some r \<Longrightarrow> step E s (final r)"
| step_save: "save_answer E n confirm s = Some r \<Longrightarrow> step E s (final r)"
| step_fire: "auto_submit E n s = Some f \<Longrightarrow> step E s (after_fire f)"
| step_input: "step E s (store_answer E v s)"
| step_start: "step E s (final (start_date chosen s))"
| step_add: "step E s (final (confirm_add E confirm s))"

text \<open>The browsers opened and closed so far.\<close>

definition opened :: "session \<Rightarrow> nat" where
  "opened s = length (filter (\<lambda>e. case e of Open _ \<Rightarrow> True | _ \<Rightarrow> False) (trace s))"

definition closed :: "session \<Rightarrow> nat" where
  "closed s = length (filter (\<lambda>e. e = CloseBrowser) (trace s))"

section \<open>Notions used in the properties\<close>

text \<open>
  A stored identity is a candidate for a question's identity when the headers are
  identical and the description or the required flag matches.
\<close>

definition candidate :: "pref_key \<Rightarrow> pref_key \<Rightarrow> bool" where
  "candidate key k \<longleftrightarrow>
     fst k = fst key \<and> (fst (snd k) = fst (snd key) \<or> snd (snd k) = snd (snd key))"

text \<open>
  The session after the metadata was read once and then \<open>k\<close> more times, each time
  after a crawl of the section.
\<close>

definition after_retries :: "nat \<Rightarrow> session \<Rightarrow> session" where
  "after_retries k s =
     s\<lparr>trace := trace s @ GetInfo # concat (replicate k [RefreshSection, GetInfo]),
       n_get_info := n_get_info s + Suc k,
       n_refresh_section := n_refresh_section s + k\<rparr>"

text \<open>
  The first \<open>k\<close> readings of the metadata report a stale element, and each of the
  \<open>k\<close> crawls that follow them finds an element.
\<close>

definition stale :: "driver \<Rightarrow> session \<Rightarrow> nat \<Rightarrow> bool" where
  "stale E s k \<longleftrightarrow>
     (\<forall>i<k. get_info_result E (n_get_info s + i) = Some False
            \<and> refresh_section_result E (n_refresh_section s + i))"

text \<open>The session after \<open>k\<close> rounds of the refresh loop.\<close>

definition crawls :: "nat \<Rightarrow> session \<Rightarrow> session" where
  "crawls k t =
     t\<lparr>trace := trace t @ concat (replicate k [RefreshSection, GetInfo]),
       n_get_info := n_get_info t + k,
       n_refresh_section := n_refresh_section t + k\<rparr>"

text \<open>
  The driver field agrees with the browsers: an idle link when every browser opened
  has been closed, a \<^verbatim>\<open>FormProcessor\<close> when exactly one is open.
\<close>

definition driver_inv :: "session \<Rightarrow> bool" where
  "driver_inv s =
     (case PROCESSOR s of
        None \<Rightarrow> False
      | Some (IdleLink l) \<Rightarrow> opened s = closed s
      | Some (FormProcessor l) \<Rightarrow> opened s = Suc (closed s))"

definition active :: "session \<Rightarrow> bool" where
  "active s = (is_FormProcessor (PROCESSOR s) \<and> opened s = Suc (closed s))"

text \<open>The driver field and the browsers are as they were in \<open>s\<close>.\<close>

definition same_driver :: "session \<Rightarrow> session \<Rightarrow> bool" where
  "same_driver s s' =
     (PROCESSOR s' = PROCESSOR s \<and> opened s' = opened s \<and> closed s' = closed s)"

text \<open>
  What a region can leave behind: \<open>N\<close> holds of the session it passes on (to the
  next region or to the next call of the handler), \<open>X\<close> of the result it ends the
  handler with.
\<close>

fun flow_sat :: "(session \<Rightarrow> bool) \<Rightarrow> (result \<Rightarrow> bool) \<Rightarrow> 'a flow \<Rightarrow> bool" where
  "flow_sat N X (Next x s) = N s"
| "flow_sat N X (Exit r) = X r"
| "flow_sat N X (Again s) = N s"
| "flow_sat N X OutOfFuel = True"

text \<open>
  How \<^verbatim>\<open>_obtain_question\<close> can end: it gives the driver back only when it returns
  to the main menu; in every other case the session still holds its open driver.
\<close>

definition ends_well :: "result \<Rightarrow> bool" where
  "ends_well r =
     (case r of
        Return st s \<Rightarrow>
          if st = RETURN then driver_inv s \<and> \<not> is_FormProcessor (PROCESSOR s) else active s
      | Raise e s \<Rightarrow> active s)"

text \<open>A result that leaves the driver as it was in \<open>s\<close> and is not a return to the menu.\<close>

definition stays :: "session \<Rightarrow> result \<Rightarrow> bool" where
  "stays s r = (same_driver s (final r) \<and> (\<forall>t. r \<noteq> Return RETURN t))"

text \<open>
  The session holds the processor built from link \<open>l\<close>, and its markup field is \<open>m\<close>.
\<close>

definition holding :: "string \<Rightarrow> markup option \<Rightarrow> session \<Rightarrow> bool" where
  "holding l m s = (PROCESSOR s = Some (FormProcessor l) \<and> CURRENT_MARKUP s = m)"

definition stopped_holding :: "string \<Rightarrow> markup option \<Rightarrow> result \<Rightarrow> bool" where
  "stopped_holding l m r = (\<forall>t. r = Return STOPPING t \<longrightarrow> holding l m t)"

text \<open>
  The events of obtaining a question: the loading screen, the opening of the
  processor, the answer to the callback query and the driver's reading of the form.
  None of them asks the user for anything.
\<close>

fun quiet_event :: "event \<Rightarrow> bool" where
  "quiet_event (EditMessage m) = (m = PleaseWait)"
| "quiet_event (Open l) = True"
| "quiet_event AnswerCallback = True"
| "quiet_event (GetQuestion start) = True"
| "quiet_event GetInfo = True"
| "quiet_event RefreshSection = True"
| "quiet_event _ = False"

definition quietly :: "session \<Rightarrow> session \<Rightarrow> bool" where
  "quietly s t =
     (\<exists>evs. trace t = trace s @ evs \<and> list_all quiet_event evs
           \<and> n_answer_question t = n_answer_question s)"

text \<open>The session after the driver was given the parts of an answer.\<close>

definition submitted :: "driver \<Rightarrow> pyval list \<Rightarrow> session \<Rightarrow> session" where
  "submitted E parts s =
     s\<lparr>trace := trace s @
           [if hd parts = PStr (get_skip E) \<or> hd parts = PStr ''/skip'' then SkipQuestion
            else AnswerQuestion parts],
       n_answer_question := Suc (n_answer_question s)\<rparr>"

text \<open>The submissions made to the driver so far.\<close>

fun is_submission :: "event \<Rightarrow> bool" where
  "is_submission (AnswerQuestion parts) = True"
| "is_submission SkipQuestion = True"
| "is_submission _ = False"

definition submissions :: "session \<Rightarrow> event list" where
  "submissions s = filter is_submission (trace s)"

text \<open>Nothing was submitted to the driver between \<open>s\<close> and \<open>t\<close>.\<close>

definition unsubmitted :: "session \<Rightarrow> session \<Rightarrow> bool" where
  "unsubmitted s t =
     (n_answer_question t = n_answer_question s \<and> submissions t = submissions s)"

text \<open>
  A result that asks for confirmation does so as a recommendation, through the
  confirmation handler.
\<close>

definition recommended :: "result \<Rightarrow> bool" where
  "recommended r =
     (\<forall>t. r = Return CONFIRM_SUBMIT t \<longrightarrow>
        (\<exists>text. last (trace t) = EditMessage (AnswerRecommendation text))
        \<and> confirm_handler_pattern t = TFPattern)"

text \<open>A region that has come to its end: it passes on or ends the handler.\<close>

fun settled :: "'a flow \<Rightarrow> bool" where
  "settled (Next x s) = True"
| "settled (Exit r) = True"
| "settled (Again s) = False"
| "settled OutOfFuel = False"

fun exits :: "'a flow \<Rightarrow> bool" where
  "exits (Exit r) = True"
| "exits _ = False"

text \<open>A region that does not ask for the handler to be entered again.\<close>

fun direct :: "'a flow \<Rightarrow> bool" where
  "direct (Again s) = False"
| "direct _ = True"

text \<open>
  A grid answer whose sub-questions were answered in their order: after the first
  sub-question without an answer, none has one.
\<close>

definition filled_in_order :: "ordered_dict \<Rightarrow> bool" where
  "filled_in_order d = list_all (\<lambda>x. snd x = PNone) (dropWhile (\<lambda>x. snd x \<noteq> PNone) d)"

section \<open>Concrete sessions and drivers\<close>

text \<open>
  A session as it is once the user has sent a form link: the link is in the driver
  field and nothing else is set.
\<close>

definition idle_session :: "string \<Rightarrow> session" where
  "idle_session l =
     \<lparr>PROCESSOR = Some (IdleLink l), CURRENT_QUESTION = None, CURRENT_ANSWER = None,
      CURRENT_MARKUP = None, SAVE_PREFS = None, CURRENT_JOB = None,
      heap = (\<lambda>_. []), next_addr = 0,
      answer_handler_pattern = MatchNothing, confirm_handler_pattern = MatchNothing,
      job_queue = [], trace = [],
      n_get_question = 0, n_get_info = 0, n_refresh_section = 0, n_answer_question = 0\<rparr>"

text \<open>
  A stand-in for \<^verbatim>\<open>datetime.strptime(start, "%Y-%m-%d %H:%M")\<close>, good enough for
  the examples: five numbers in range, separated as the format says.
\<close>

definition simple_strptime :: "string \<Rightarrow> datetime option" where
  "simple_strptime start =
     (case split_on CHR '' '' start of
        [d, t] \<Rightarrow>
          (case (map py_unsigned (split_on CHR ''-'' d), map py_unsigned (split_on CHR '':'' t)) of
             ([Some y, Some m, Some dd], [Some h, Some mi]) \<Rightarrow>
               if 1 \<le> m \<and> m \<le> 12 \<and> 1 \<le> dd \<and> dd \<le> 31 \<and> h \<le> 23 \<and> mi \<le> 59
               then Some \<lparr>dt_year = nat y, dt_month = nat m, dt_day = nat dd,
                          dt_hour = nat h, dt_minute = nat mi\<rparr>
               else None
           | _ \<Rightarrow> None)
      | _ \<Rightarrow> None)"

text \<open>
  A driver whose form has no questions left, whose calls all succeed, and whose
  constants are plain English labels.
\<close>

definition quiet_driver :: driver where
  "quiet_driver =
     \<lparr>get_question_result = (\<lambda>_. Complete),
      get_info_result = (\<lambda>_. Some True),
      refresh_section_result = (\<lambda>_. True),
      answer_question_result = (\<lambda>_. Some True),
      get_skip = ''Skip'',
      is_BaseOptionMarkup = (\<lambda>m. m \<noteq> NoMarkup \<and> m \<noteq> FreqCustomMarkup),
      get_link = (\<lambda>l. l),
      get_hourly = ''Hourly'', get_daily = ''Daily'', get_weekly = ''Weekly'',
      get_monthly = ''Monthly'',
      valid_freq = (\<lambda>d h m. 5 \<le> (d * 24 + h) * 60 + m),
      strptime = simple_strptime\<rparr>"

text \<open>A required free-text question and an optional grid question.\<close>

definition name_question :: question where
  "name_question =
     \<lparr>header = ''Name'', description = ''Your full name'', required = True,
      classes = [], options = [], sub_questions = []\<rparr>"

definition grid_question :: question where
  "grid_question =
     \<lparr>header = ''Meals'', description = ''Pick one per day'', required = False,
      classes = [BaseOptionQuestion, BaseOptionGridQuestion],
      options = [''Fish'', ''Pasta''], sub_questions = [''Mon'', ''Tue'', ''Wed'']\<rparr>"

text \<open>A form that shows the given questions in turn and is then complete.\<close>

definition form_of :: "question list \<Rightarrow> nat \<Rightarrow> fetched" where
  "form_of qs n = (if n < length qs then Fetched (qs ! n) else Complete)"

text \<open>
  A session with per-question preferences, and a saved answer that is always to be
  submitted.
\<close>

definition remembering :: "local_prefs \<Rightarrow> session \<Rightarrow> session" where
  "remembering prefs s =
     s\<lparr>SAVE_PREFS := Some \<lparr>GLOBAL_SAVE_PREF = Some AskAgain, LOCAL_SAVE_PREF = Some prefs\<rparr>\<rparr>"

definition always_alan :: pref_entry where
  "always_alan = \<lparr>PREF_KEY = Some SaveAlways, ANSWER_KEY = Some (PStr ''Alan'')\<rparr>"

text \<open>The session once the first question of the form has been read.\<close>

definition reading :: "question \<Rightarrow> session \<Rightarrow> session" where
  "reading q s =
     s\<lparr>PROCESSOR := Some (FormProcessor ''form''), CURRENT_QUESTION := Some q,
       trace := [EditMessage PleaseWait, Open ''form'', AnswerCallback, GetQuestion True, GetInfo],
       n_get_question := Suc 0, n_get_info := Suc 0\<rparr>"

text \<open>
  A session in which the grid question is being answered: Monday and Tuesday have an
  answer, Wednesday has none yet.
\<close>

definition grid_session :: session where
  "grid_session =
     (idle_session ''form'')
       \<lparr>PROCESSOR := Some (FormProcessor ''form''),
        CURRENT_QUESTION := Some grid_question,
        CURRENT_ANSWER := Some (PDict 0),
        heap := (\<lambda>_. [])(0 := [(''Mon'', PStr ''Fish''), (''Tue'', PStr ''Pasta''),
                                (''Wed'', PNone)]),
        next_addr := Suc 0\<rparr>"

section \<open>Evaluating the handlers on concrete input\<close>

text \<open>The defining equations that a concrete run of a handler unfolds.\<close>

lemmas engine_eval =
  obtain_body_def acquire_def after_question_def open_processor_def next_question_def
  read_metadata_def get_question_def get_info_def refresh_section_def
  submit_to_google_forms_def remove_current_pointers_def release_def
  saved_answer_def stored_answer_def grid_region_def alloc_def pop_local_pref_def
  answer_text_def sub_answer_def recommend_def markup_for_def prompt_def ask_def
  emit_def isinstance_def get_pref_key_def od_get_def od_of_keys_def prefs_pop_def

lemmas example_eval = idle_session_def quiet_driver_def name_question_def grid_question_def
  form_of_def

section \<open>Reasoning about regions\<close>

lemma flow_sat_and_then:
  assumes "flow_sat N X F" "\<And>x s. N s \<Longrightarrow> flow_sat N X (f x s)"
  shows "flow_sat N X (and_then F f)"
  using assms by (cases F) auto

lemma flow_sat_mono:
  "flow_sat N X F \<Longrightarrow> (\<And>s. N s \<Longrightarrow> N' s) \<Longrightarrow> (\<And>r. X r \<Longrightarrow> X' r) \<Longrightarrow> flow_sat N' X' F"
  by (cases F) auto

lemma after_question_sat:
  assumes sa: "\<And>s. N s \<Longrightarrow> flow_sat N X (saved_answer E tp q s)"
      and gr: "\<And>a s. N s \<Longrightarrow> flow_sat N X (grid_region q a s)"
      and re: "\<And>sub a p s. N s \<Longrightarrow> flow_sat N X (recommend E tp q sub a p s)"
      and ak: "\<And>s. N s \<Longrightarrow> X (ask E q s)"
      and s: "N s"
  shows "flow_sat N X (after_question E tp q s)"
proof -
  have 3: "flow_sat N X (and_then (recommend E tp q sub a p t) (\<lambda>_ s3. Exit (ask E q s3)))"
    if "N t" for sub a p t
    by (rule flow_sat_and_then) (auto intro: re ak that)
  have 2: "flow_sat N X (and_then (grid_region q a t)
            (\<lambda>(sub, answer') s2.
               and_then (recommend E tp q sub answer' p s2)
                 (\<lambda>_ s3. Exit (ask E q s3))))"
    if "N t" for a p t
    by (rule flow_sat_and_then) (auto intro: gr 3 that)
  show ?thesis
    unfolding after_question_def
    by (rule flow_sat_and_then) (auto intro: sa 2 s)
qed

section \<open>What obtaining a question does not do\<close>

lemma quietly_refl: "quietly s s"
  by (simp add: quietly_def)

lemma quietly_trans: "quietly a b \<Longrightarrow> quietly b c \<Longrightarrow> quietly a c"
  by (auto simp: quietly_def)

lemma quietly_step:
  "quietly s t \<Longrightarrow> trace u = trace t @ evs \<Longrightarrow> list_all quiet_event evs \<Longrightarrow>
   n_answer_question u = n_answer_question t \<Longrightarrow> quietly s u"
  by (auto simp: quietly_def)

lemma quietly_submissions: "quietly s t \<Longrightarrow> submissions t = submissions s"
proof -
  have "list_all quiet_event evs \<Longrightarrow> filter is_submission evs = []" for evs
  proof (induction evs)
    case (Cons e evs)
    then show ?case by (cases e) auto
  qed simp
  then show "quietly s t \<Longrightarrow> submissions t = submissions s"
    by (auto simp: quietly_def submissions_def)
qed

lemma quietly_unsubmitted: "quietly s t \<Longrightarrow> unsubmitted s t"
  using quietly_submissions[of s t] by (auto simp: unsubmitted_def quietly_def)

lemma unsubmitted_step:
  "unsubmitted s t \<Longrightarrow> trace u = trace t @ evs \<Longrightarrow> filter is_submission evs = [] \<Longrightarrow>
   n_answer_question u = n_answer_question t \<Longrightarrow> unsubmitted s u"
  by (simp add: unsubmitted_def submissions_def)

lemma unsubmitted_trans: "unsubmitted a b \<Longrightarrow> unsubmitted b c \<Longrightarrow> unsubmitted a c"
  by (simp add: unsubmitted_def)

lemma open_processor_quietly:
  "flow_sat (quietly s) (\<lambda>r. unsubmitted s (final r)) (open_processor s)"
  by (auto simp: open_processor_def quietly_def unsubmitted_def submissions_def emit_def
        split: option.splits processor.splits)

lemma refresh_loop_quietly:
  "quietly s0 s \<Longrightarrow> flow_sat (quietly s0) (\<lambda>r. unsubmitted s0 (final r)) (refresh_loop E n r s)"
proof (induction n arbitrary: r s)
  case 0
  then show ?case by simp
next
  case (Suc n)
  have a: "quietly s0 (snd (refresh_section E s))"
    by (rule quietly_step[OF Suc.prems, where evs = "[RefreshSection]"])
       (simp_all add: refresh_section_def)
  have b: "quietly s0 (snd (get_info E (snd (refresh_section E s))))"
    by (rule quietly_step[OF a, where evs = "[GetInfo]"]) (simp_all add: get_info_def)
  show ?case using Suc.prems a Suc.IH[OF b] by (simp add: case_prod_unfold)
qed

lemma read_metadata_quietly:
  assumes "quietly s0 s"
  shows "flow_sat (quietly s0) (\<lambda>r. unsubmitted s0 (final r)) (read_metadata E n q s)"
proof -
  have a: "quietly s0 (snd (get_info E s))"
    by (rule quietly_step[OF assms, where evs = "[GetInfo]"]) (simp_all add: get_info_def)
  have e: "quietly s0 t \<Longrightarrow> unsubmitted s0 (emit SendBugMessage t)" for t
    by (rule unsubmitted_step[OF quietly_unsubmitted, where evs = "[SendBugMessage]"])
       (simp_all add: emit_def)
  show ?thesis
    unfolding read_metadata_def case_prod_unfold
    by (rule flow_sat_and_then[OF refresh_loop_quietly[OF a]]) (simp add: e)
qed

lemma next_question_quietly:
  assumes "quietly s0 s"
  shows "flow_sat (quietly s0) (\<lambda>r. unsubmitted s0 (final r)) (next_question E n l start s)"
proof (cases "CURRENT_QUESTION s")
  case (Some q)
  then show ?thesis using assms by (simp add: next_question_def)
next
  case None
  define s1 where "s1 = snd (get_question E start s)"
  have a: "quietly s0 s1"
    unfolding s1_def
    by (rule quietly_step[OF assms, where evs = "[GetQuestion start]"])
       (simp_all add: get_question_def)
  show ?thesis
  proof (cases "fst (get_question E start s)")
    case (Fetched q)
    have "quietly s0 (s1\<lparr>CURRENT_QUESTION := Some q\<rparr>)"
      by (rule quietly_step[OF a, where evs = "[]"]) simp_all
    then show ?thesis using None Fetched read_metadata_quietly
      by (simp add: next_question_def case_prod_unfold s1_def)
  next
    case Complete
    have "unsubmitted s0 ((release E l (emit (EditMessage FormSubmitted) s1))
                    \<lparr>answer_handler_pattern := MatchNothing\<rparr>)"
      by (rule unsubmitted_step[OF quietly_unsubmitted[OF a],
                where evs = "[EditMessage FormSubmitted, CloseBrowser]"])
         (simp_all add: release_def emit_def)
    then show ?thesis using None Complete
      by (simp add: next_question_def case_prod_unfold s1_def)
  next
    case Unavailable
    have "unsubmitted s0 (emit SendBugMessage s1)"
      by (rule unsubmitted_step[OF quietly_unsubmitted[OF a], where evs = "[SendBugMessage]"])
         (simp_all add: emit_def)
    then show ?thesis using None Unavailable
      by (simp add: next_question_def case_prod_unfold s1_def)
  qed
qed

lemma acquire_quietly: "flow_sat (quietly s) (\<lambda>r. unsubmitted s (final r)) (acquire E n s)"
  unfolding acquire_def
  by (rule flow_sat_and_then[OF open_processor_quietly]) (auto simp: next_question_quietly)

lemma settled_and_then: "settled F \<Longrightarrow> (\<And>x s. exits (f x s)) \<Longrightarrow> exits (and_then F f)"
  by (cases F) auto

lemma exits_and_then: "exits F \<Longrightarrow> exits (and_then F f)"
  by (cases F) auto

lemma grid_region_settled: "settled (grid_region q a s)"
  by (auto simp: grid_region_def split: option.splits pyval.splits)

lemma recommend_settled: "settled (recommend E tp q sub a p s)"
  by (auto simp: recommend_def sub_answer_def split: option.splits pyval.splits)

lemma tail_exits:
  "exits (and_then (grid_region q a s)
            (\<lambda>(sub, answer') s2.
               and_then (recommend E tp q sub answer' p s2)
                 (\<lambda>_ s3. Exit (ask E q s3))))"
  by (rule settled_and_then[OF grid_region_settled])
     (auto intro: settled_and_then[OF recommend_settled])

lemma grid_region_unsubmitted:
  "flow_sat (unsubmitted s) (\<lambda>r. unsubmitted s (final r) \<and> recommended r) (grid_region q a s)"
  by (auto simp: grid_region_def alloc_def pop_local_pref_def unsubmitted_def submissions_def
        recommended_def emit_def split: option.splits pyval.splits)

lemma recommend_unsubmitted:
  "flow_sat (unsubmitted s) (\<lambda>r. unsubmitted s (final r) \<and> recommended r)
     (recommend E tp q sub a None s)"
  by (auto simp: recommend_def sub_answer_def unsubmitted_def submissions_def
        recommended_def emit_def split: option.splits pyval.splits)

lemma ask_unsubmitted: "unsubmitted s (final (ask E q s)) \<and> recommended (ask E q s)"
  by (auto simp: ask_def prompt_def unsubmitted_def submissions_def recommended_def emit_def
        split: option.splits)

lemma tail_unsubmitted:
  "flow_sat (unsubmitted s) (\<lambda>r. unsubmitted s (final r) \<and> recommended r)
     (and_then (grid_region q a s)
            (\<lambda>(sub, answer') s2.
               and_then (recommend E tp q sub answer' None s2)
                 (\<lambda>_ s3. Exit (ask E q s3))))"
proof -
  have 3: "flow_sat (unsubmitted s) (\<lambda>r. unsubmitted s (final r) \<and> recommended r)
            (and_then (recommend E tp q sub a' None t) (\<lambda>_ s3. Exit (ask E q s3)))"
    if "unsubmitted s t" for sub a' t
  proof (rule flow_sat_and_then)
    show "flow_sat (unsubmitted s) (\<lambda>r. unsubmitted s (final r) \<and> recommended r)
            (recommend E tp q sub a' None t)"
      by (rule flow_sat_mono[OF recommend_unsubmitted])
         (auto intro: unsubmitted_trans[OF that])
  next
    fix x u assume "unsubmitted s u"
    then show "flow_sat (unsubmitted s) (\<lambda>r. unsubmitted s (final r) \<and> recommended r)
                 (Exit (ask E q u))"
      using ask_unsubmitted[of u E q] by (auto intro: unsubmitted_trans)
  qed
  show ?thesis
    by (rule flow_sat_and_then[OF grid_region_unsubmitted]) (auto intro: 3)
qed


lemma truthy_parts: "truthy s answer \<Longrightarrow> answer_parts s answer \<noteq> []"
  by (cases answer) auto

lemma submit_nonempty:
  "parts \<noteq> [] \<Longrightarrow>
   submit_to_google_forms E parts s
     = (answer_question_result E (n_answer_question s), submitted E parts s)"
  by (cases parts) (simp_all add: submit_to_google_forms_def submitted_def)

lemma obtain_question_after:
  "acquire E n s = Next q s1 \<Longrightarrow>
   obtain_question E (Suc n) tp s =
     (case after_question E tp q s1 of
        Exit r \<Rightarrow> Some r
      | Again s' \<Rightarrow> obtain_question E n True s'
      | OutOfFuel \<Rightarrow> None
      | Next _ _ \<Rightarrow> None)"
  by (simp add: obtain_body_def)

lemma direct_and_then: "direct F \<Longrightarrow> (\<And>x s. direct (f x s)) \<Longrightarrow> direct (and_then F f)"
  by (cases F) auto

lemma refresh_loop_direct: "direct (refresh_loop E n r s)"
  by (induction n arbitrary: r s) (simp_all add: case_prod_unfold)

lemma read_metadata_direct: "direct (read_metadata E n q s)"
  unfolding read_metadata_def case_prod_unfold
  by (rule direct_and_then[OF refresh_loop_direct]) simp

lemma next_question_direct: "direct (next_question E n l start s)"
  by (auto simp: next_question_def case_prod_unfold read_metadata_direct
        split: option.splits fetched.splits)

lemma open_processor_direct: "direct (open_processor s)"
  by (auto simp: open_processor_def split: option.splits processor.splits)

lemma acquire_direct: "direct (acquire E n s)"
  unfolding acquire_def
  by (rule direct_and_then[OF open_processor_direct]) (auto simp: next_question_direct)

lemma exits_result: "exits F \<Longrightarrow> \<exists>r. F = Exit r"
  by (cases F) auto

lemma flow_sat_exit: "flow_sat N X F \<Longrightarrow> F = Exit r \<Longrightarrow> X r"
  by simp

lemma passed_on:
  assumes "saved_answer E tp q s = Next (a, None) s"
  obtains r where "after_question E tp q s = Exit r" "unsubmitted s (final r)" "recommended r"
proof -
  let ?T = "and_then (grid_region q a s)
       (\<lambda>(sub, answer') s2.
          and_then (recommend E tp q sub answer' None s2)
            (\<lambda>_ s3. Exit (ask E q s3))) :: unit flow"
  have eq: "after_question E tp q s = ?T"
    by (simp only: after_question_def assms and_then.simps prod.case)
  have "exits ?T" by (rule tail_exits)
  then obtain r where r: "?T = Exit r" using exits_result by blast
  have "flow_sat (unsubmitted s) (\<lambda>r. unsubmitted s (final r) \<and> recommended r) ?T"
    by (rule tail_unsubmitted)
  from flow_sat_exit[OF this r] have "unsubmitted s (final r) \<and> recommended r" .
  moreover have "after_question E tp q s = Exit r" using eq r by (rule trans)
  ultimately show thesis using that[of r] by blast
qed

lemma obtain_question_unprocessed:
  assumes "obtain_question E m False t = Some r"
  shows "unsubmitted t (final r)"
proof (cases m)
  case 0
  then show ?thesis using assms by simp
next
  case (Suc k)
  show ?thesis
  proof (cases "acquire E k t")
    case (Next q t1)
    have q: "unsubmitted t t1"
      using acquire_quietly[of t E k] Next by (simp add: quietly_unsubmitted)
    have "saved_answer E False q t1 = Next (PNone, None) t1" by (simp add: saved_answer_def)
    then obtain r0 where r0: "after_question E False q t1 = Exit r0"
      and u: "unsubmitted t1 (final r0)"
      by (rule passed_on)
    have "obtain_question E (Suc k) False t = Some r0"
      by (simp add: obtain_question_after[OF Next] r0 del: obtain_question.simps)
    then have "r = r0" using assms Suc by simp
    then show ?thesis using unsubmitted_trans[OF q u] by simp
  next
    case (Exit r0)
    have "unsubmitted t (final r0)" using acquire_quietly[of t E k] Exit by simp
    moreover have "r = r0" using assms Suc Exit by (simp add: obtain_body_def)
    ultimately show ?thesis by simp
  next
    case (Again t')
    then show ?thesis using acquire_direct[of E k t] by simp
  next
    case OutOfFuel
    then show ?thesis using assms Suc by (simp add: obtain_body_def)
  qed
qed

lemma submit_answer_unconfirmed:
  assumes "c \<noteq> Some True" "submit_answer E m c t = Some r"
  shows "unsubmitted t (final r)"
proof -
  let ?s1 = "(emit AnswerCallback t)\<lparr>CURRENT_MARKUP := None, confirm_handler_pattern := MatchNothing\<rparr>"
  have a: "unsubmitted t ?s1" by (simp add: unsubmitted_def submissions_def emit_def)
  have b: "unsubmitted t (reject_answer ?s1)"
    by (simp add: unsubmitted_def submissions_def emit_def reject_answer_def
          split: option.splits pyval.splits)
  have e: "unsubmitted t (emit SendBugMessage t)"
    by (simp add: unsubmitted_def submissions_def emit_def)
  show ?thesis
  proof (cases "\<exists>answer q. CURRENT_ANSWER t = Some answer \<and> CURRENT_QUESTION t = Some q
                    \<and> is_FormProcessor (PROCESSOR t)")
    case False
    then have "submit_answer E m c t = Some (Return STOPPING (emit SendBugMessage t))"
      by (auto simp: submit_answer_def split: option.splits)
    then show ?thesis using assms(2) e by simp
  next
    case True
    then obtain answer q where h: "CURRENT_ANSWER t = Some answer" "CURRENT_QUESTION t = Some q"
      "is_FormProcessor (PROCESSOR t)" by blast
    show ?thesis
    proof (cases c)
      case None
      have "submit_answer E m None t = Some (Return STOPPING ?s1)"
        by (simp add: submit_answer_def h)
      then have "r = Return STOPPING ?s1" using assms(2) None by simp
      then show ?thesis using a by simp
    next
      case (Some yes)
      then have no: "c = Some False" using assms(1) by simp
      have "submit_answer E m (Some False) t = obtain_question E m False (reject_answer ?s1)"
        by (simp add: submit_answer_def h)
      then have "obtain_question E m False (reject_answer ?s1) = Some r"
        using assms(2) no by simp
      from unsubmitted_trans[OF b obtain_question_unprocessed[OF this]] show ?thesis .
    qed
  qed
qed

lemma answer_text_heap: "heap a = heap b \<Longrightarrow> answer_text E a v = answer_text E b v"
  by (cases v) (simp_all add: answer_text_def)

section \<open>Properties of the duration question\<close>

lemma valid_duration_iff:
  "valid_duration d = Some (h, m, s) \<longleftrightarrow>
     (\<exists>a b c. split_on CHR '':'' d = [a, b, c] \<and> py_int a = Some h \<and> py_int b = Some m
        \<and> py_int c = Some s)
     \<and> 0 \<le> h \<and> h \<le> 72 \<and> 0 \<le> m \<and> m \<le> 59 \<and> 0 \<le> s \<and> s \<le> 59"
  by (auto simp: valid_duration_def split: list.splits option.splits)

text \<open>
  Claim C10, as amended. Provided the cached answer elements are valid, or
  \<^verbatim>\<open>get_info\<close> succeeds in caching them again, \<^verbatim>\<open>DurationQuestion.answer\<close>
  sends input to the form exactly when the text splits on the colon into three parts
  that \<^verbatim>\<open>int\<close> accepts, with hour in 0..72, minute and second in 0..59: it then
  returns \<^verbatim>\<open>True\<close> after clicking and typing the three values, in order, into the
  cached hour, minute and second elements; for any other text it returns
  \<^verbatim>\<open>False\<close> and sends nothing. When the elements are not valid and
  \<^verbatim>\<open>get_info\<close> fails, the result of \<^verbatim>\<open>get_info\<close> (\<^verbatim>\<open>False\<close> or
  \<^verbatim>\<open>None\<close>) is returned, whatever the text, and nothing is sent.
\<close>

theorem duration_answer_checked:
  "(elements_sane P q \<or> base_get_info P = Some True \<longrightarrow>
      (\<exists>q' eh em es. ANSWER_ELEMENTS q' = Some (eh, em, es) \<and>
         q' = (if elements_sane P q then q else q\<lparr>ANSWER_ELEMENTS := Some (found_elements P)\<rparr>) \<and>
         ((\<exists>a b c h m s.
             split_on CHR '':'' d = [a, b, c] \<and> py_int a = Some h \<and> py_int b = Some m
             \<and> py_int c = Some s
             \<and> 0 \<le> h \<and> h \<le> 72 \<and> 0 \<le> m \<and> m \<le> 59 \<and> 0 \<le> s \<and> s \<le> 59
             \<and> DurationQuestion_answer P q d =
                 (Returned (Some True), q',
                  [Click eh, SendKeys eh h, Click em, SendKeys em m, Click es, SendKeys es s]))
          \<or> ((\<forall>a b c h m s.
                \<not> (split_on CHR '':'' d = [a, b, c] \<and> py_int a = Some h \<and> py_int b = Some m
                   \<and> py_int c = Some s
                   \<and> 0 \<le> h \<and> h \<le> 72 \<and> 0 \<le> m \<and> m \<le> 59 \<and> 0 \<le> s \<and> s \<le> 59))
              \<and> DurationQuestion_answer P q d = (Returned (Some False), q', [])))))
   \<and> (\<not> elements_sane P q \<and> base_get_info P \<noteq> Some True \<longrightarrow>
        DurationQuestion_answer P q d = (Returned (base_get_info P), q, [])
        \<and> base_get_info P \<in> {None, Some False})"
proof (intro conjI impI)
  assume sane: "elements_sane P q \<or> base_get_info P = Some True"
  define q' where "q' = (if elements_sane P q then q else q\<lparr>ANSWER_ELEMENTS := Some (found_elements P)\<rparr>)"
  have "\<exists>eh em es. ANSWER_ELEMENTS q' = Some (eh, em, es)"
  proof (cases "elements_sane P q")
    case True
    then show ?thesis by (cases "ANSWER_ELEMENTS q") (auto simp: q'_def elements_sane_def)
  next
    case False
    then show ?thesis by (cases "found_elements P") (simp add: q'_def)
  qed
  then obtain eh em es where els: "ANSWER_ELEMENTS q' = Some (eh, em, es)"
    by blast
  have run: "DurationQuestion_answer P q d = validate_and_send q' d"
    using sane by (auto simp: DurationQuestion_answer_def DurationQuestion_get_info_def q'_def)
  show "\<exists>q' eh em es. ANSWER_ELEMENTS q' = Some (eh, em, es) \<and>
         q' = (if elements_sane P q then q else q\<lparr>ANSWER_ELEMENTS := Some (found_elements P)\<rparr>) \<and>
         ((\<exists>a b c h m s.
             split_on CHR '':'' d = [a, b, c] \<and> py_int a = Some h \<and> py_int b = Some m
             \<and> py_int c = Some s
             \<and> 0 \<le> h \<and> h \<le> 72 \<and> 0 \<le> m \<and> m \<le> 59 \<and> 0 \<le> s \<and> s \<le> 59
             \<and> DurationQuestion_answer P q d =
                 (Returned (Some True), q',
                  [Click eh, SendKeys eh h, Click em, SendKeys em m, Click es, SendKeys es s]))
          \<or> ((\<forall>a b c h m s.
                \<not> (split_on CHR '':'' d = [a, b, c] \<and> py_int a = Some h \<and> py_int b = Some m
                   \<and> py_int c = Some s
                   \<and> 0 \<le> h \<and> h \<le> 72 \<and> 0 \<le> m \<and> m \<le> 59 \<and> 0 \<le> s \<and> s \<le> 59))
              \<and> DurationQuestion_answer P q d = (Returned (Some False), q', [])))"
  proof (cases "valid_duration d")
    case None
    have "\<forall>a b c h m s.
                \<not> (split_on CHR '':'' d = [a, b, c] \<and> py_int a = Some h \<and> py_int b = Some m
                   \<and> py_int c = Some s
                   \<and> 0 \<le> h \<and> h \<le> 72 \<and> 0 \<le> m \<and> m \<le> 59 \<and> 0 \<le> s \<and> s \<le> 59)"
      using None valid_duration_iff[of d] by (metis option.distinct(1))
    moreover have "DurationQuestion_answer P q d = (Returned (Some False), q', [])"
      using None run by (simp add: validate_and_send_def)
    ultimately show ?thesis using els q'_def by blast
  next
    case (Some v)
    obtain h m s where v: "v = (h, m, s)" by (cases v) auto
    have "DurationQuestion_answer P q d =
            (Returned (Some True), q',
             [Click eh, SendKeys eh h, Click em, SendKeys em m, Click es, SendKeys es s])"
      using Some v run els by (simp add: validate_and_send_def send_duration_def)
    moreover have "(\<exists>a b c. split_on CHR '':'' d = [a, b, c] \<and> py_int a = Some h \<and> py_int b = Some m
        \<and> py_int c = Some s)
     \<and> 0 \<le> h \<and> h \<le> 72 \<and> 0 \<le> m \<and> m \<le> 59 \<and> 0 \<le> s \<and> s \<le> 59"
      using Some v valid_duration_iff[of d h m s] by simp
    ultimately show ?thesis using els q'_def by blast
  qed
next
  assume "\<not> elements_sane P q \<and> base_get_info P \<noteq> Some True"
  then show "DurationQuestion_answer P q d = (Returned (base_get_info P), q, [])"
    by (simp add: DurationQuestion_answer_def DurationQuestion_get_info_def)
next
  assume "\<not> elements_sane P q \<and> base_get_info P \<noteq> Some True"
  then show "base_get_info P \<in> {None, Some False}"
    by (cases "base_get_info P") auto
qed


text \<open>The equations that evaluate the duration question on concrete input.\<close>

lemmas dq_eval = DurationQuestion_answer_def DurationQuestion_get_info_def elements_sane_def
  validate_and_send_def send_duration_def valid_duration_def py_int_def strip_def is_space_def
  py_unsigned_def is_digit_def digit_val_def

text \<open>
  The theorem at concrete inputs: valid cached elements with the text 1:02:03, and
  stale elements that \<^verbatim>\<open>get_info\<close> cannot cache again.
\<close>

theorem duration_answer_checked_witness:
  "DurationQuestion_answer
      \<lparr>element_valid = (\<lambda>_. True), base_get_info = None, found_elements = (4, 5, 6)\<rparr>
      \<lparr>ANSWER_ELEMENTS = Some (1, 2, 3)\<rparr> ''1:02:03''
     = (Returned (Some True), \<lparr>ANSWER_ELEMENTS = Some (1, 2, 3)\<rparr>,
        [Click 1, SendKeys 1 1, Click 2, SendKeys 2 2, Click 3, SendKeys 3 3])
   \<and> DurationQuestion_answer
      \<lparr>element_valid = (\<lambda>_. False), base_get_info = Some False, found_elements = (4, 5, 6)\<rparr>
      \<lparr>ANSWER_ELEMENTS = None\<rparr> ''1:02:03''
     = (Returned (Some False), \<lparr>ANSWER_ELEMENTS = None\<rparr>, [])"
  using duration_answer_checked
      [of "\<lparr>element_valid = (\<lambda>_. True), base_get_info = None, found_elements = (4, 5, 6)\<rparr>"
          "\<lparr>ANSWER_ELEMENTS = Some (1, 2, 3)\<rparr>" "''1:02:03''"]
    duration_answer_checked
      [of "\<lparr>element_valid = (\<lambda>_. False), base_get_info = Some False, found_elements = (4, 5, 6)\<rparr>"
          "\<lparr>ANSWER_ELEMENTS = None\<rparr>" "''1:02:03''"]
  by (simp add: dq_eval)

text \<open>
  Claim C10 as first stated fails where the sanity check fails: with no cached
  elements and \<^verbatim>\<open>get_info\<close> returning \<^verbatim>\<open>None\<close>, the malformed text abc is
  answered with \<^verbatim>\<open>None\<close>, not \<^verbatim>\<open>False\<close>; and with stale elements and a
  failing \<^verbatim>\<open>get_info\<close>, the well-formed text 1:02:03 is answered with
  \<^verbatim>\<open>False\<close> and nothing is sent.
\<close>

theorem duration_answer_counterexample:
  "valid_duration ''abc'' = None
   \<and> DurationQuestion_answer
        \<lparr>element_valid = (\<lambda>_. False), base_get_info = None, found_elements = (4, 5, 6)\<rparr>
        \<lparr>ANSWER_ELEMENTS = None\<rparr> ''abc''
       = (Returned None, \<lparr>ANSWER_ELEMENTS = None\<rparr>, [])
   \<and> valid_duration ''1:02:03'' = Some (1, 2, 3)
   \<and> DurationQuestion_answer
        \<lparr>element_valid = (\<lambda>_. False), base_get_info = Some False, found_elements = (4, 5, 6)\<rparr>
        \<lparr>ANSWER_ELEMENTS = Some (1, 2, 3)\<rparr> ''1:02:03''
       = (Returned (Some False), \<lparr>ANSWER_ELEMENTS = Some (1, 2, 3)\<rparr>, [])"
  by (simp add: dq_eval)

section \<open>The close-match scan of the preference cache\<close>

lemma close_match_step:
  "close_match key ((k, e) # prefs) = (if candidate key k then Some (k, e) else close_match key prefs)"
  by (cases key) (auto simp: candidate_def)

lemma close_match_None: "close_match key prefs = None \<longleftrightarrow> (\<forall>p \<in> set prefs. \<not> candidate key (fst p))"
  by (induction prefs) (auto simp: close_match_step simp del: close_match.simps(2) split: if_splits)

lemma close_match_Some:
  "close_match key prefs = Some (k, e) \<longleftrightarrow>
     (\<exists>before after. prefs = before @ (k, e) # after \<and> candidate key k
        \<and> (\<forall>p \<in> set before. \<not> candidate key (fst p)))"
proof (induction prefs)
  case Nil
  then show ?case by simp
next
  case (Cons p prefs)
  obtain k' e' where p: "p = (k', e')" by (cases p)
  show ?case
  proof (cases "candidate key k'")
    case True
    have "(\<exists>before after. (k', e') # prefs = before @ (k, e) # after \<and> candidate key k
        \<and> (\<forall>p \<in> set before. \<not> candidate key (fst p))) \<longleftrightarrow> (k', e') = (k, e)"
    proof
      assume "\<exists>before after. (k', e') # prefs = before @ (k, e) # after \<and> candidate key k
        \<and> (\<forall>p \<in> set before. \<not> candidate key (fst p))"
      then obtain before after where b: "(k', e') # prefs = before @ (k, e) # after"
        "\<forall>p \<in> set before. \<not> candidate key (fst p)" by blast
      show "(k', e') = (k, e)"
      proof (cases before)
        case Nil
        then show ?thesis using b by simp
      next
        case (Cons x xs)
        then have "x = (k', e')" using b by simp
        then show ?thesis using b True Cons by auto
      qed
    next
      assume "(k', e') = (k, e)"
      then have "(k', e') # prefs = [] @ (k, e) # prefs \<and> candidate key k" using True by simp
      then show "\<exists>before after. (k', e') # prefs = before @ (k, e) # after \<and> candidate key k
        \<and> (\<forall>p \<in> set before. \<not> candidate key (fst p))" by (metis empty_iff list.set(1))
    qed
    then show ?thesis using True p by (simp add: close_match_step del: close_match.simps(2))
  next
    case False
    have "(\<exists>before after. (k', e') # prefs = before @ (k, e) # after \<and> candidate key k
        \<and> (\<forall>p \<in> set before. \<not> candidate key (fst p)))
      \<longleftrightarrow> (\<exists>before after. prefs = before @ (k, e) # after \<and> candidate key k
        \<and> (\<forall>p \<in> set before. \<not> candidate key (fst p)))" (is "?L \<longleftrightarrow> ?R")
    proof
      assume ?L
      then obtain before after where b: "(k', e') # prefs = before @ (k, e) # after"
        "candidate key k" "\<forall>p \<in> set before. \<not> candidate key (fst p)" by blast
      show ?R
      proof (cases before)
        case Nil
        then show ?thesis using b False by simp
      next
        case (Cons x xs)
        then have "prefs = xs @ (k, e) # after" "\<forall>p \<in> set xs. \<not> candidate key (fst p)"
          using b by auto
        then show ?thesis using b(2) by blast
      qed
    next
      assume ?R
      then obtain before after where b: "prefs = before @ (k, e) # after"
        "candidate key k" "\<forall>p \<in> set before. \<not> candidate key (fst p)" by blast
      then have "(k', e') # prefs = ((k', e') # before) @ (k, e) # after"
        "\<forall>p \<in> set ((k', e') # before). \<not> candidate key (fst p)"
        using False by auto
      then show ?L using b(2) by blast
    qed
    then show ?thesis using False p Cons.IH by (simp add: close_match_step del: close_match.simps(2))
  qed
qed

lemma close_match_mem: "close_match key prefs = Some (k, e) \<Longrightarrow> (k, e) \<in> set prefs"
  by (auto simp: close_match_Some)

text \<open>
  Claim C4. When the preferences hold no entry for the question's identity, the
  close-match scan returns the first stored identity, in insertion order, whose
  header is the question's header and whose description or required flag matches:
  every entry before it fails that test, and the scan finds nothing exactly when no
  entry passes it. The identity it returns has the question's header and differs
  from the question's identity in exactly one of description and required flag. The
  engine passes the answer stored with that identity on, with no preference.
\<close>

theorem close_match_takes_first_candidate:
  assumes "map_of prefs key = None"
  shows "(close_match key prefs = None \<longleftrightarrow> (\<forall>p \<in> set prefs. \<not> candidate key (fst p)))
     \<and> (\<forall>k e. close_match key prefs = Some (k, e) \<longleftrightarrow>
           (\<exists>before after. prefs = before @ (k, e) # after \<and> candidate key k
              \<and> (\<forall>p \<in> set before. \<not> candidate key (fst p))))
     \<and> (\<forall>k e. close_match key prefs = Some (k, e) \<longrightarrow>
           fst k = fst key
           \<and> ((fst (snd k) = fst (snd key)) \<noteq> (snd (snd k) = snd (snd key))))
     \<and> (\<forall>E q s sp. SAVE_PREFS s = Some sp \<and> LOCAL_SAVE_PREF sp = Some prefs
             \<and> get_pref_key q = key \<longrightarrow>
           saved_answer E True q s =
             Next (case close_match key prefs of
                     None \<Rightarrow> PNone
                   | Some (k, e) \<Rightarrow> stored_answer e, None) s)"
proof (intro conjI allI impI)
  show "close_match key prefs = None \<longleftrightarrow> (\<forall>p \<in> set prefs. \<not> candidate key (fst p))"
    by (rule close_match_None)
next
  fix k e
  show "close_match key prefs = Some (k, e) \<longleftrightarrow>
           (\<exists>before after. prefs = before @ (k, e) # after \<and> candidate key k
              \<and> (\<forall>p \<in> set before. \<not> candidate key (fst p)))"
    by (rule close_match_Some)
next
  fix k e
  assume m: "close_match key prefs = Some (k, e)"
  then have c: "candidate key k" and mem: "(k, e) \<in> set prefs"
    by (auto simp: close_match_Some)
  from mem assms have "k \<noteq> key"
    by (metis map_of_eq_None_iff fst_conv image_eqI)
  then have "\<not> (fst (snd k) = fst (snd key) \<and> snd (snd k) = snd (snd key))"
    using c by (auto simp: candidate_def prod_eq_iff)
  then show "(fst (snd k) = fst (snd key)) \<noteq> (snd (snd k) = snd (snd key))"
    using c by (auto simp: candidate_def)
  show "fst k = fst key" using c by (simp add: candidate_def)
next
  fix E q and s :: session and sp :: save_prefs
  assume "SAVE_PREFS s = Some sp \<and> LOCAL_SAVE_PREF sp = Some prefs \<and> get_pref_key q = key"
  then show "saved_answer E True q s =
             Next (case close_match key prefs of
                     None \<Rightarrow> PNone
                   | Some (k, e) \<Rightarrow> stored_answer e, None) s"
    using assms by (auto simp: saved_answer_def split: option.splits)
qed

text \<open>
  The scan on three stored identities: the first has another header, the second
  differs in description and required flag, the third differs in the description
  only and is taken.
\<close>

theorem close_match_takes_first_candidate_witness:
  "close_match (''Name'', ''Your full name'', True)
     [((''Age'', ''Your full name'', True), \<lparr>PREF_KEY = Some SaveAlways, ANSWER_KEY = Some (PStr ''41'')\<rparr>),
      ((''Name'', ''Nickname'', False), \<lparr>PREF_KEY = Some SaveAlways, ANSWER_KEY = Some (PStr ''Al'')\<rparr>),
      ((''Name'', ''Name in full'', True), \<lparr>PREF_KEY = Some SaveAlways, ANSWER_KEY = Some (PStr ''Alan'')\<rparr>),
      ((''Name'', ''Your full name'', False), \<lparr>PREF_KEY = Some AskAgain, ANSWER_KEY = Some (PStr ''Bo'')\<rparr>)]
   = Some ((''Name'', ''Name in full'', True),
           \<lparr>PREF_KEY = Some SaveAlways, ANSWER_KEY = Some (PStr ''Alan'')\<rparr>)"
  using close_match_takes_first_candidate
    [of "[((''Age'', ''Your full name'', True), \<lparr>PREF_KEY = Some SaveAlways, ANSWER_KEY = Some (PStr ''41'')\<rparr>),
      ((''Name'', ''Nickname'', False), \<lparr>PREF_KEY = Some SaveAlways, ANSWER_KEY = Some (PStr ''Al'')\<rparr>),
      ((''Name'', ''Name in full'', True), \<lparr>PREF_KEY = Some SaveAlways, ANSWER_KEY = Some (PStr ''Alan'')\<rparr>),
      ((''Name'', ''Your full name'', False), \<lparr>PREF_KEY = Some AskAgain, ANSWER_KEY = Some (PStr ''Bo'')\<rparr>)]"
        "(''Name'', ''Your full name'', True)"]
  by simp


section \<open>Stale question elements\<close>


lemma crawls_0: "crawls 0 t = t"
  by (simp add: crawls_def)

lemma one_round:
  assumes "refresh_section_result E (n_refresh_section t)"
  shows "refresh_loop E (Suc m) (Some False) t
       = refresh_loop E m (get_info_result E (n_get_info t)) (crawls (Suc 0) t)"
proof -
  have f1: "fst (refresh_section E t)"
    using assms by (simp add: refresh_section_def)
  have f2: "fst (get_info E (snd (refresh_section E t))) = get_info_result E (n_get_info t)"
    by (simp add: refresh_section_def get_info_def)
  have f3: "snd (get_info E (snd (refresh_section E t))) = crawls (Suc 0) t"
    by (rule session.equality) (simp_all add: refresh_section_def get_info_def crawls_def)
  show ?thesis by (simp add: case_prod_unfold f1 f2 f3)
qed

lemma concat_replicate_comm: "concat (replicate j x) @ x = x @ concat (replicate j x)"
  by (induction j) simp_all

lemma crawls_Suc: "crawls k (crawls (Suc 0) t) = crawls (Suc k) t"
  by (rule session.equality) (simp_all add: crawls_def)

lemma crawls_Suc': "crawls (Suc 0) (crawls k t) = crawls (Suc k) t"
  by (rule session.equality) (simp_all add: crawls_def concat_replicate_comm)

lemma refresh_loop_crawls:
  "(\<forall>i<k. refresh_section_result E (n_refresh_section t + i)
          \<and> get_info_result E (n_get_info t + i) = Some False)
   \<Longrightarrow> k \<le> n
   \<Longrightarrow> refresh_loop E n (Some False) t = refresh_loop E (n - k) (Some False) (crawls k t)"
proof (induction k arbitrary: t n)
  case 0
  then show ?case by (simp add: crawls_0)
next
  case (Suc k)
  then obtain m where n: "n = Suc m" and km: "k \<le> m" by (cases n) auto
  have first: "refresh_section_result E (n_refresh_section t)"
      "get_info_result E (n_get_info t) = Some False"
    using Suc.prems(1)[rule_format, of 0] by simp_all
  have one: "refresh_loop E (Suc m) (Some False) t
             = refresh_loop E m (Some False) (crawls (Suc 0) t)"
    using one_round[OF first(1)] first(2) by (simp del: refresh_loop.simps)
  have rest: "\<forall>i<k. refresh_section_result E (n_refresh_section (crawls (Suc 0) t) + i)
          \<and> get_info_result E (n_get_info (crawls (Suc 0) t) + i) = Some False"
  proof (intro allI impI)
    fix i assume "i < k"
    then show "refresh_section_result E (n_refresh_section (crawls (Suc 0) t) + i)
          \<and> get_info_result E (n_get_info (crawls (Suc 0) t) + i) = Some False"
      using Suc.prems(1)[rule_format, of "Suc i"] by (simp add: crawls_def)
  qed
  show ?case using Suc.IH[OF rest km] one n by (simp add: crawls_Suc del: refresh_loop.simps)
qed

lemma refresh_loop_done: "r \<noteq> Some False \<Longrightarrow> refresh_loop E n r t = Next r t"
  by (cases n) simp_all

lemma read_metadata_unfold:
  "read_metadata E n q s =
     and_then (refresh_loop E n (get_info_result E (n_get_info s)) (after_retries 0 s))
            (\<lambda>result' s2.
               if result' = Some True then Next q s2
               else Exit (Return STOPPING (emit SendBugMessage s2)))"
proof -
  have "snd (get_info E s) = after_retries 0 s"
    by (rule session.equality) (simp_all add: get_info_def after_retries_def)
  moreover have "fst (get_info E s) = get_info_result E (n_get_info s)"
    by (simp add: get_info_def)
  ultimately show ?thesis by (simp add: read_metadata_def case_prod_unfold)
qed

lemma crawls_after_retries: "crawls i (after_retries j s) = after_retries (j + i) s"
  by (rule session.equality) (simp_all add: crawls_def after_retries_def replicate_add)

lemma stale_loop:
  assumes "stale E s k" "k \<le> n"
  shows "read_metadata E n q s =
     and_then (refresh_loop E (n - k) (get_info_result E (n_get_info s + k)) (after_retries k s))
            (\<lambda>result' s2.
               if result' = Some True then Next q s2
               else Exit (Return STOPPING (emit SendBugMessage s2)))"
proof (cases k)
  case 0
  then show ?thesis by (simp add: read_metadata_unfold)
next
  case (Suc j)
  define t where "t = after_retries 0 s"
  obtain m where n: "n = Suc m" and jm: "j \<le> m" using assms(2) Suc by (cases n) auto
  have st: "\<And>i. i < Suc j \<Longrightarrow> get_info_result E (n_get_info s + i) = Some False
            \<and> refresh_section_result E (n_refresh_section s + i)"
    using assms(1) Suc by (simp add: stale_def)
  have g0: "get_info_result E (n_get_info s) = Some False"
    using st[of 0] by simp
  have r0: "\<forall>i<j. refresh_section_result E (n_refresh_section t + i)
          \<and> get_info_result E (n_get_info t + i) = Some False"
  proof (intro allI impI)
    fix i assume "i < j"
    then show "refresh_section_result E (n_refresh_section t + i)
          \<and> get_info_result E (n_get_info t + i) = Some False"
      using st[of i] st[of "Suc i"] by (simp add: t_def after_retries_def)
  qed
  have rj: "refresh_section_result E (n_refresh_section (crawls j t))"
    using st[of j] by (simp add: t_def after_retries_def crawls_def)
  have gj: "n_get_info (crawls j t) = n_get_info s + k"
    using Suc by (simp add: t_def after_retries_def crawls_def)
  have a: "refresh_loop E n (Some False) t = refresh_loop E (n - j) (Some False) (crawls j t)"
    using refresh_loop_crawls[OF r0, of n] jm n by simp
  have nj: "n - j = Suc (n - k)" using n jm Suc by simp
  have b: "refresh_loop E (n - j) (Some False) (crawls j t)
         = refresh_loop E (n - k) (get_info_result E (n_get_info s + k)) (after_retries k s)"
    using one_round[OF rj, of "n - k"] nj gj Suc
    by (simp add: t_def crawls_after_retries del: refresh_loop.simps)
  show ?thesis
    using g0 a b by (simp add: read_metadata_unfold t_def del: refresh_loop.simps)
qed

text \<open>
  Claim C7, as amended. When reading the metadata reports a stale element, the engine
  asks the driver to find the element again and reads the metadata again, and it
  goes on doing so for as long as the reading reports a stale element and the driver
  finds an element: after any number \<open>k\<close> of such crawls, a successful reading lets
  the traversal go on, and the step is fatal only when a reading returns \<^verbatim>\<open>None\<close>
  or the driver finds no element. The number of retries is not bounded by one.
\<close>

theorem stale_metadata_is_read_again:
  assumes "stale E s k"
  shows "(k \<le> n \<and> get_info_result E (n_get_info s + k) = Some True
            \<longrightarrow> read_metadata E n q s = Next q (after_retries k s))
       \<and> (k \<le> n \<and> get_info_result E (n_get_info s + k) = None
            \<longrightarrow> read_metadata E n q s
                = Exit (Return STOPPING (emit SendBugMessage (after_retries k s))))
       \<and> (k < n \<and> get_info_result E (n_get_info s + k) = Some False
            \<and> \<not> refresh_section_result E (n_refresh_section s + k)
            \<longrightarrow> read_metadata E n q s
                = Exit (Return STOPPING
                    (emit SendBugMessage
                       ((emit RefreshSection (after_retries k s))
                          \<lparr>n_refresh_section := Suc (n_refresh_section s + k)\<rparr>))))"
proof (intro conjI impI)
  assume "k \<le> n \<and> get_info_result E (n_get_info s + k) = Some True"
  then show "read_metadata E n q s = Next q (after_retries k s)"
    using stale_loop[OF assms, of n q] by (simp add: refresh_loop_done)
next
  assume "k \<le> n \<and> get_info_result E (n_get_info s + k) = None"
  then show "read_metadata E n q s
                = Exit (Return STOPPING (emit SendBugMessage (after_retries k s)))"
    using stale_loop[OF assms, of n q] by (simp add: refresh_loop_done)
next
  assume a: "k < n \<and> get_info_result E (n_get_info s + k) = Some False
            \<and> \<not> refresh_section_result E (n_refresh_section s + k)"
  then obtain m where m: "n - k = Suc m" by (cases "n - k") auto
  have f1: "\<not> fst (refresh_section E (after_retries k s))"
    using a by (simp add: refresh_section_def after_retries_def)
  have f3: "snd (refresh_section E (after_retries k s))
          = (emit RefreshSection (after_retries k s))
                          \<lparr>n_refresh_section := Suc (n_refresh_section s + k)\<rparr>"
    by (rule session.equality) (simp_all add: refresh_section_def after_retries_def emit_def)
  have "refresh_loop E (n - k) (Some False) (after_retries k s)
       = Next None ((emit RefreshSection (after_retries k s))
                          \<lparr>n_refresh_section := Suc (n_refresh_section s + k)\<rparr>)"
    unfolding m by (simp add: case_prod_unfold f1 f3)
  then show "read_metadata E n q s
                = Exit (Return STOPPING
                    (emit SendBugMessage
                       ((emit RefreshSection (after_retries k s))
                          \<lparr>n_refresh_section := Suc (n_refresh_section s + k)\<rparr>)))"
    using stale_loop[OF assms, of n q] a by simp
qed

text \<open>
  Two stale readings followed by a good one, and one stale reading after which the
  driver finds no element.
\<close>

theorem stale_metadata_is_read_again_witness:
  "read_metadata
      (quiet_driver\<lparr>get_info_result := (\<lambda>n. if n < 2 then Some False else Some True)\<rparr>)
      5 name_question (idle_session ''form'')
     = Next name_question (after_retries 2 (idle_session ''form''))
   \<and> read_metadata
      (quiet_driver\<lparr>get_info_result := (\<lambda>n. Some False),
                    refresh_section_result := (\<lambda>n. n < 1)\<rparr>)
      5 name_question (idle_session ''form'')
     = Exit (Return STOPPING
         (emit SendBugMessage
            ((emit RefreshSection (after_retries 1 (idle_session ''form'')))
               \<lparr>n_refresh_section := Suc (n_refresh_section (idle_session ''form'') + 1)\<rparr>)))"
  using stale_metadata_is_read_again
      [of "quiet_driver\<lparr>get_info_result := (\<lambda>n. if n < 2 then Some False else Some True)\<rparr>"
          "idle_session ''form''" 2 5 name_question]
    stale_metadata_is_read_again
      [of "quiet_driver\<lparr>get_info_result := (\<lambda>n. Some False),
                         refresh_section_result := (\<lambda>n. n < 1)\<rparr>"
          "idle_session ''form''" 1 5 name_question]
  by (simp add: stale_def quiet_driver_def idle_session_def)

text \<open>
  Claim C7 as first stated fails: with two stale readings the engine crawls the
  section twice and reads the metadata three times, and the traversal goes on to
  prompt for the answer.
\<close>

theorem stale_twice_counterexample:
  "\<exists>s'. obtain_question
          (quiet_driver\<lparr>get_question_result := form_of [name_question],
                        get_info_result := (\<lambda>n. if n < 2 then Some False else Some True)\<rparr>)
          5 True (idle_session ''form'')
        = Some (Return SKIP_OR_ANSWER s')
      \<and> trace s' =
          [EditMessage PleaseWait, Open ''form'', AnswerCallback, GetQuestion True,
           GetInfo, RefreshSection, GetInfo, RefreshSection, GetInfo, EditMessage PleaseAnswer]"
  by (simp add: engine_eval example_eval eval_nat_numeral)


section \<open>A job that fires during a traversal\<close>

text \<open>
  Claim C2. When a scheduled job fires while the session holds a
  \<^verbatim>\<open>FormProcessor\<close> (a traversal is in flight), the callback returns at once, for
  any amount of fuel: the whole session is as it was, so no call into the driver
  or the chat transport is recorded, no job is added to the queue and nothing is kept
  for a later try. The guard is what keeps a second traversal from starting on the
  session.
\<close>

theorem fire_is_noop_while_driver_active:
  "is_FormProcessor (PROCESSOR s) \<Longrightarrow> auto_submit E n s = Some (Finished s)"
  by (simp add: auto_submit_def)

theorem fire_is_noop_while_driver_active_witness:
  "auto_submit quiet_driver 3 ((idle_session ''form'')\<lparr>PROCESSOR := Some (FormProcessor ''form'')\<rparr>)
     = Some (Finished ((idle_session ''form'')\<lparr>PROCESSOR := Some (FormProcessor ''form'')\<rparr>))"
  using fire_is_noop_while_driver_active
          [of "(idle_session ''form'')\<lparr>PROCESSOR := Some (FormProcessor ''form'')\<rparr>"
              quiet_driver 3]
  by (simp add: idle_session_def)


section \<open>The driver field\<close>

lemma same_driver_refl: "same_driver s s"
  by (simp add: same_driver_def)

lemma same_driver_trans: "same_driver a b \<Longrightarrow> same_driver b c \<Longrightarrow> same_driver a c"
  by (simp add: same_driver_def)

lemma saved_answer_same:
  "flow_sat (same_driver s) (stays s) (saved_answer E tp q s)"
  by (auto simp: saved_answer_def submit_to_google_forms_def remove_current_pointers_def
        same_driver_def stays_def emit_def opened_def closed_def
        split: option.splits list.splits)

lemma grid_region_same:
  "flow_sat (same_driver s) (stays s) (grid_region q a s)"
  by (auto simp: grid_region_def alloc_def pop_local_pref_def
        same_driver_def stays_def emit_def opened_def closed_def
        split: option.splits pyval.splits)

lemma recommend_same:
  "flow_sat (same_driver s) (stays s) (recommend E tp q sub a p s)"
  by (auto simp: recommend_def sub_answer_def same_driver_def stays_def emit_def opened_def
        closed_def split: option.splits pyval.splits)

lemma ask_same: "stays s (ask E q s)"
  by (auto simp: ask_def prompt_def same_driver_def stays_def emit_def opened_def closed_def
        split: option.splits)

lemma stays_trans: "same_driver s t \<Longrightarrow> stays t r \<Longrightarrow> stays s r"
  by (auto simp: stays_def same_driver_def)

lemma after_question_same:
  "flow_sat (same_driver s) (stays s) (after_question E tp q s)"
proof (rule after_question_sat)
  show "same_driver s s" by (rule same_driver_refl)
next
  fix t assume "same_driver s t"
  then show "flow_sat (same_driver s) (stays s) (saved_answer E tp q t)"
    by (auto intro: flow_sat_mono[OF saved_answer_same] same_driver_trans stays_trans)
next
  fix a t assume "same_driver s t"
  then show "flow_sat (same_driver s) (stays s) (grid_region q a t)"
    by (auto intro: flow_sat_mono[OF grid_region_same] same_driver_trans stays_trans)
next
  fix sub a p t assume "same_driver s t"
  then show "flow_sat (same_driver s) (stays s) (recommend E tp q sub a p t)"
    by (auto intro: flow_sat_mono[OF recommend_same] same_driver_trans stays_trans)
next
  fix t assume "same_driver s t"
  then show "stays s (ask E q t)"
    using ask_same[of t E q] by (rule stays_trans)
qed


lemma same_driver_inv: "same_driver s s' \<Longrightarrow> driver_inv s \<Longrightarrow> driver_inv s'"
  by (auto simp: same_driver_def driver_inv_def split: option.splits processor.splits)

lemma same_driver_active: "same_driver s s' \<Longrightarrow> active s \<Longrightarrow> active s'"
  by (simp add: same_driver_def active_def)

lemma active_inv: "active s \<Longrightarrow> driver_inv s"
  by (cases "PROCESSOR s" rule: is_FormProcessor.cases) (auto simp: active_def driver_inv_def)

lemma ends_well_inv: "ends_well r \<Longrightarrow> driver_inv (final r)"
  by (cases r) (auto simp: ends_well_def active_inv split: if_splits)

lemma open_processor_active:
  "driver_inv s \<Longrightarrow> flow_sat active X (open_processor s)"
  by (auto simp: open_processor_def driver_inv_def active_def emit_def opened_def closed_def
        split: option.splits processor.splits)

lemma refresh_loop_active:
  "active s \<Longrightarrow> flow_sat active X (refresh_loop E n r s)"
proof (induction n arbitrary: r s)
  case 0
  then show ?case by simp
next
  case (Suc n)
  have a: "active (snd (refresh_section E s))"
    using Suc.prems by (simp add: refresh_section_def active_def opened_def closed_def)
  have b: "active (snd (get_info E (snd (refresh_section E s))))"
    using a by (simp add: get_info_def active_def opened_def closed_def)
  show ?case using Suc.prems a Suc.IH[OF b] by (simp add: case_prod_unfold)
qed

lemma read_metadata_active:
  assumes "active s"
  shows "flow_sat active ends_well (read_metadata E n q s)"
proof -
  have a: "active (snd (get_info E s))"
    using assms by (simp add: get_info_def active_def opened_def closed_def)
  have e: "active t \<Longrightarrow> ends_well (Return STOPPING (emit SendBugMessage t))" for t
    by (simp add: ends_well_def active_def emit_def opened_def closed_def)
  show ?thesis
    unfolding read_metadata_def case_prod_unfold
    by (rule flow_sat_and_then[OF refresh_loop_active[OF a]]) (simp add: e)
qed

lemma next_question_active:
  assumes "active s"
  shows "flow_sat active ends_well (next_question E n l start s)"
proof (cases "CURRENT_QUESTION s")
  case (Some q)
  then show ?thesis using assms by (simp add: next_question_def)
next
  case None
  define s1 where "s1 = snd (get_question E start s)"
  have a: "active s1"
    using assms by (simp add: s1_def get_question_def active_def opened_def closed_def)
  show ?thesis
  proof (cases "fst (get_question E start s)")
    case Complete
    have "ends_well (Return RETURN
                 ((release E l (emit (EditMessage FormSubmitted) s1))
                    \<lparr>answer_handler_pattern := MatchNothing\<rparr>))"
      using a by (simp add: ends_well_def driver_inv_def active_def release_def emit_def
                    opened_def closed_def)
    then show ?thesis using None Complete
      by (simp add: next_question_def case_prod_unfold s1_def)
  next
    case Unavailable
    have "ends_well (Return STOPPING (emit SendBugMessage s1))"
      using a by (simp add: ends_well_def active_def emit_def opened_def closed_def)
    then show ?thesis using None Unavailable
      by (simp add: next_question_def case_prod_unfold s1_def)
  next
    case (Fetched q)
    have "active (s1\<lparr>CURRENT_QUESTION := Some q\<rparr>)"
      using a by (simp add: active_def opened_def closed_def)
    then show ?thesis using None Fetched read_metadata_active
      by (simp add: next_question_def case_prod_unfold s1_def)
  qed
qed

lemma acquire_active:
  "driver_inv s \<Longrightarrow> flow_sat active ends_well (acquire E n s)"
  unfolding acquire_def
  by (rule flow_sat_and_then[OF open_processor_active])
     (auto simp: next_question_active)

lemma after_question_active:
  assumes "active s"
  shows "flow_sat active ends_well (after_question E tp q s)"
proof (rule flow_sat_mono[OF after_question_same])
  fix t assume "same_driver s t"
  then show "active t" using assms by (rule same_driver_active)
next
  fix r assume "stays s r"
  then show "ends_well r"
    using assms same_driver_active[of s "final r"]
    by (cases r) (auto simp: stays_def ends_well_def)
qed

lemma obtain_body_active:
  "driver_inv s \<Longrightarrow> flow_sat active ends_well (obtain_body E n tp s)"
  unfolding obtain_body_def
  by (rule flow_sat_and_then[OF acquire_active]) (auto simp: after_question_active)

lemma obtain_question_ends_well:
  "driver_inv s \<Longrightarrow> obtain_question E n tp s = Some r \<Longrightarrow> ends_well r"
proof (induction n arbitrary: s tp)
  case 0
  then show ?case by simp
next
  case (Suc n)
  show ?case
  proof (cases "obtain_body E n tp s")
    case (Next x t)
    then show ?thesis using Suc.prems by simp
  next
    case (Exit r')
    then show ?thesis using Suc.prems obtain_body_active[of s E n tp] by simp
  next
    case (Again t)
    then have "driver_inv t" using Suc.prems obtain_body_active[of s E n tp]
      by (simp add: active_inv)
    then show ?thesis using Suc.IH[of t True] Suc.prems Again by simp
  next
    case OutOfFuel
    then show ?thesis using Suc.prems by simp
  qed
qed


lemma same_driver_simps:
  "same_driver s (remove_current_pointers s)"
  "same_driver s (ensure_pref k s)"
  "same_driver s (save_current_answer k s)"
  "same_driver s (reject_answer s)"
  "same_driver s (snd (submit_to_google_forms E a s))"
  "same_driver s (store_answer E v s)"
  "same_driver s (emit (EditMessage m) s)"
  "same_driver s (emit SendBugMessage s)"
  "same_driver s (emit AnswerCallback s)"
  by (auto simp: same_driver_def remove_current_pointers_def ensure_pref_def
        save_current_answer_def reject_answer_def submit_to_google_forms_def store_answer_def
        emit_def opened_def closed_def
        split: option.splits pyval.splits list.splits)

lemma same_driver_fields:
  "same_driver s t \<Longrightarrow>
     same_driver s (t\<lparr>CURRENT_MARKUP := m, confirm_handler_pattern := p\<rparr>)"
  by (simp add: same_driver_def opened_def closed_def)

lemma save_region_inv:
  assumes "driver_inv s" "save_region E n q s = Some r"
  shows "driver_inv (final r)"
proof -
  define s1 where "s1 = ensure_pref (get_pref_key q) s"
  have i1: "driver_inv s1"
    unfolding s1_def by (rule same_driver_inv[OF same_driver_simps(2) assms(1)])
  have bug: "driver_inv (emit SendBugMessage s1)"
    using i1 same_driver_simps(8) by (rule same_driver_inv[rotated])
  have a: "driver_inv (remove_current_pointers
                           (emit (EditMessage AnswerAutoSaved)
                              (save_current_answer (get_pref_key q) s1)))"
    by (intro same_driver_inv[OF same_driver_simps(1)] same_driver_inv[OF same_driver_simps(7)]
          same_driver_inv[OF same_driver_simps(3)] i1)
  have b: "driver_inv (remove_current_pointers (emit (EditMessage AnswerAutoDiscarded) s1))"
    by (intro same_driver_inv[OF same_driver_simps(1)] same_driver_inv[OF same_driver_simps(7)] i1)
  have c: "driver_inv (emit (EditMessage SaveAnswerPrompt) s1)"
    by (intro same_driver_inv[OF same_driver_simps(7)] i1)
  show ?thesis
    using assms(2) i1 bug c
      ends_well_inv[OF obtain_question_ends_well[OF a]]
      ends_well_inv[OF obtain_question_ends_well[OF b]]
    unfolding save_region_def s1_def[symmetric]
    by (auto split: option.splits if_splits)
qed

lemma submit_answer_inv:
  assumes "driver_inv s" "submit_answer E n c s = Some r"
  shows "driver_inv (final r)"
proof -
  define s1 where "s1 = (emit AnswerCallback s)
                     \<lparr>CURRENT_MARKUP := None, confirm_handler_pattern := MatchNothing\<rparr>"
  have i1: "driver_inv s1"
    unfolding s1_def
    by (rule same_driver_inv[OF same_driver_fields[OF same_driver_simps(9)] assms(1)])
  have bug: "driver_inv (emit SendBugMessage s)"
    by (rule same_driver_inv[OF same_driver_simps(8) assms(1)])
  have rej: "driver_inv (reject_answer s1)"
    by (rule same_driver_inv[OF same_driver_simps(4) i1])
  have sub: "driver_inv (snd (submit_to_google_forms E a (emit (EditMessage PleaseWait) s1)))" for a
    by (intro same_driver_inv[OF same_driver_simps(5)] same_driver_inv[OF same_driver_simps(7)] i1)
  show ?thesis
    using assms(2) bug i1 sub
      ends_well_inv[OF obtain_question_ends_well[OF i1]]
      ends_well_inv[OF obtain_question_ends_well[OF rej]]
      save_region_inv[OF sub]
    unfolding submit_answer_def s1_def[symmetric]
    by (auto simp: case_prod_unfold split: option.splits if_splits bool.splits)
qed

lemma save_answer_inv:
  assumes "driver_inv s" "save_answer E n c s = Some r"
  shows "driver_inv (final r)"
proof -
  have bug: "driver_inv (emit SendBugMessage s)"
    by (rule same_driver_inv[OF same_driver_simps(8) assms(1)])
  have cb: "driver_inv (emit AnswerCallback s)"
    by (rule same_driver_inv[OF same_driver_simps(9) assms(1)])
  have a: "driver_inv (remove_current_pointers (save_current_answer k (emit AnswerCallback s)))" for k
    by (intro same_driver_inv[OF same_driver_simps(1)] same_driver_inv[OF same_driver_simps(3)] cb)
  have b: "driver_inv (remove_current_pointers (emit AnswerCallback s))"
    by (intro same_driver_inv[OF same_driver_simps(1)] cb)
  show ?thesis
    using assms(2) bug cb
      ends_well_inv[OF obtain_question_ends_well[OF a]]
      ends_well_inv[OF obtain_question_ends_well[OF b]]
    unfolding save_answer_def
    by (auto split: option.splits if_splits)
qed

lemma clean_up_inv: "active s \<Longrightarrow> driver_inv (clean_up E s) \<and> \<not> is_FormProcessor (PROCESSOR (clean_up E s))"
  by (cases "PROCESSOR s" rule: is_FormProcessor.cases)
     (auto simp: clean_up_def active_def driver_inv_def remove_current_pointers_def release_def
        emit_def opened_def closed_def)

lemma auto_submit_inv:
  assumes "driver_inv s" "auto_submit E n s = Some f"
  shows "driver_inv (after_fire f)"
proof (cases "is_FormProcessor (PROCESSOR s)")
  case True
  then show ?thesis using assms by (auto simp: auto_submit_def)
next
  case False
  show ?thesis
  proof (cases "obtain_question E n True s")
    case None
    then show ?thesis using assms False by (simp add: auto_submit_def)
  next
    case (Some r)
    have w: "ends_well r" by (rule obtain_question_ends_well[OF assms(1) Some])
    show ?thesis
    proof (cases r)
      case (Return st t)
      then show ?thesis
        using assms(2) False Some w clean_up_inv[of t E] ends_well_inv[OF w]
        by (auto simp: auto_submit_def ends_well_def split: if_splits)
    next
      case (Raise e t)
      then show ?thesis
        using assms(2) False Some ends_well_inv[OF w] by (auto simp: auto_submit_def)
    qed
  qed
qed

lemma start_date_same: "same_driver s (final (start_date picked s))"
  by (auto simp: start_date_def same_driver_def emit_def opened_def closed_def
        split: option.splits job_slot.splits chosen.splits)

lemma confirm_add_same: "same_driver s (final (confirm_add E confirm s))"
  by (auto simp: confirm_add_def add_job_def same_driver_def emit_def opened_def closed_def
        split: option.splits job_slot.splits list.splits)

lemma step_inv: "step E s s' \<Longrightarrow> driver_inv s \<Longrightarrow> driver_inv s'"
proof (induction rule: step.induct)
  case (step_obtain n to_process s r)
  then show ?case using ends_well_inv[OF obtain_question_ends_well] by blast
next
  case (step_submit n confirm s r)
  then show ?case using submit_answer_inv by blast
next
  case (step_save n confirm s r)
  then show ?case using save_answer_inv by blast
next
  case (step_fire n s f)
  then show ?case using auto_submit_inv by blast
next
  case (step_input s v)
  then show ?case using same_driver_inv[OF same_driver_simps(6)] by blast
next
  case (step_start chosen s)
  then show ?case using same_driver_inv[OF start_date_same] by blast
next
  case (step_add confirm s)
  then show ?case using same_driver_inv[OF confirm_add_same] by blast
qed

text \<open>
  Claim C1. From a session that holds a form link and has no browser open, after any
  number of handler calls (the traversal handlers, a fired job, the storing of the
  user's input, the scheduler menu), with any inputs and any behaviour of the form,
  the driver field holds an idle link and every browser that was opened has been
  closed, or it holds a \<^verbatim>\<open>FormProcessor\<close> and exactly one browser is open. The field
  is never empty, and a handler that closes the browser leaves a link in the field.
\<close>

theorem driver_field_is_link_xor_driver:
  assumes "PROCESSOR s = Some (IdleLink l)" "opened s = closed s" "(step E)\<^sup>*\<^sup>* s s'"
  shows "((\<exists>l'. PROCESSOR s' = Some (IdleLink l')) \<and> opened s' = closed s')
       \<or> ((\<exists>l'. PROCESSOR s' = Some (FormProcessor l')) \<and> opened s' = Suc (closed s'))"
proof -
  have "driver_inv s" using assms(1,2) by (simp add: driver_inv_def)
  with assms(3) have "driver_inv s'"
    by (induction rule: rtranclp_induct) (auto intro: step_inv)
  then show ?thesis
    by (auto simp: driver_inv_def split: option.splits processor.splits)
qed

text \<open>
  A first call of \<^verbatim>\<open>_obtain_question\<close> on a form with one question leaves the
  \<^verbatim>\<open>FormProcessor\<close> in the field, with its one browser open.
\<close>

theorem driver_field_is_link_xor_driver_witness:
  "\<exists>s'. (step (quiet_driver\<lparr>get_question_result := form_of [name_question]\<rparr>))\<^sup>*\<^sup>*
          (idle_session ''form'') s'
      \<and> PROCESSOR s' = Some (FormProcessor ''form'')
      \<and> opened s' = 1 \<and> closed s' = 0"
proof -
  define D where "D = quiet_driver\<lparr>get_question_result := form_of [name_question]\<rparr>"
  have "\<exists>s'. obtain_question D 2 True (idle_session ''form'') = Some (Return SKIP_OR_ANSWER s')
          \<and> PROCESSOR s' = Some (FormProcessor ''form'')
          \<and> trace s' = [EditMessage PleaseWait, Open ''form'', AnswerCallback,
                          GetQuestion True, GetInfo, EditMessage PleaseAnswer]"
    by (simp add: D_def engine_eval example_eval eval_nat_numeral)
  then obtain s' where run: "obtain_question D 2 True (idle_session ''form'')
                               = Some (Return SKIP_OR_ANSWER s')"
    and p: "PROCESSOR s' = Some (FormProcessor ''form'')"
    and t: "trace s' = [EditMessage PleaseWait, Open ''form'', AnswerCallback,
                          GetQuestion True, GetInfo, EditMessage PleaseAnswer]"
    by blast
  have "step D (idle_session ''form'') (final (Return SKIP_OR_ANSWER s'))"
    using run by (rule step_obtain)
  then have reach: "(step D)\<^sup>*\<^sup>* (idle_session ''form'') s'" by simp
  have "((\<exists>l'. PROCESSOR s' = Some (IdleLink l')) \<and> opened s' = closed s')
       \<or> ((\<exists>l'. PROCESSOR s' = Some (FormProcessor l')) \<and> opened s' = Suc (closed s'))"
    by (rule driver_field_is_link_xor_driver[OF _ _ reach, of "''form''"])
       (simp_all add: idle_session_def opened_def closed_def)
  moreover have "closed s' = 0" using t by (simp add: closed_def)
  ultimately have "opened s' = 1" using p by simp
  then show ?thesis using reach p \<open>closed s' = 0\<close> unfolding D_def by blast
qed


section \<open>Fatal failures\<close>

lemma saved_answer_holding:
  "holding l m s \<Longrightarrow> flow_sat (holding l m) (stopped_holding l m) (saved_answer E tp q s)"
  by (auto simp: saved_answer_def submit_to_google_forms_def remove_current_pointers_def
        holding_def stopped_holding_def emit_def
        split: option.splits list.splits)

lemma grid_region_holding:
  "holding l m s \<Longrightarrow> flow_sat (holding l m) (stopped_holding l m) (grid_region q a s)"
  by (auto simp: grid_region_def alloc_def pop_local_pref_def
        holding_def stopped_holding_def emit_def
        split: option.splits pyval.splits)

lemma recommend_holding:
  "holding l m s \<Longrightarrow> flow_sat (holding l m) (stopped_holding l m) (recommend E tp q sub a p s)"
  by (auto simp: recommend_def sub_answer_def holding_def stopped_holding_def emit_def
        split: option.splits pyval.splits)

lemma ask_holding: "holding l m s \<Longrightarrow> stopped_holding l m (ask E q s)"
  by (auto simp: ask_def prompt_def holding_def stopped_holding_def emit_def
        split: option.splits)

lemma after_question_holding:
  "holding l m s \<Longrightarrow> flow_sat (holding l m) (stopped_holding l m) (after_question E tp q s)"
  by (rule after_question_sat)
     (auto intro: saved_answer_holding grid_region_holding recommend_holding ask_holding)

lemma open_processor_link:
  "PROCESSOR s = Some (IdleLink l) \<or> PROCESSOR s = Some (FormProcessor l) \<Longrightarrow>
   CURRENT_MARKUP s = m \<Longrightarrow>
   \<exists>start t. open_processor s = Next (l, start) t \<and> holding l m t"
  by (auto simp: open_processor_def holding_def emit_def)

lemma refresh_loop_holding:
  "holding l m s \<Longrightarrow> flow_sat (holding l m) X (refresh_loop E n r s)"
proof (induction n arbitrary: r s)
  case 0
  then show ?case by simp
next
  case (Suc n)
  have a: "holding l m (snd (refresh_section E s))"
    using Suc.prems by (simp add: refresh_section_def holding_def)
  have b: "holding l m (snd (get_info E (snd (refresh_section E s))))"
    using a by (simp add: get_info_def holding_def)
  show ?case using Suc.prems a Suc.IH[OF b] by (simp add: case_prod_unfold)
qed

lemma read_metadata_holding:
  assumes "holding l m s"
  shows "flow_sat (holding l m) (stopped_holding l m) (read_metadata E n q s)"
proof -
  have a: "holding l m (snd (get_info E s))"
    using assms by (simp add: get_info_def holding_def)
  have e: "holding l m t \<Longrightarrow> stopped_holding l m (Return STOPPING (emit SendBugMessage t))" for t
    by (simp add: stopped_holding_def holding_def emit_def)
  show ?thesis
    unfolding read_metadata_def case_prod_unfold
    by (rule flow_sat_and_then[OF refresh_loop_holding[OF a]]) (simp add: e)
qed

lemma next_question_holding:
  assumes "holding l m s"
  shows "flow_sat (holding l m) (stopped_holding l m) (next_question E n l' start s)"
proof (cases "CURRENT_QUESTION s")
  case (Some q)
  then show ?thesis using assms by (simp add: next_question_def)
next
  case None
  define s1 where "s1 = snd (get_question E start s)"
  have a: "holding l m s1"
    using assms by (simp add: s1_def get_question_def holding_def)
  show ?thesis
  proof (cases "fst (get_question E start s)")
    case Complete
    then show ?thesis using None
      by (simp add: next_question_def case_prod_unfold stopped_holding_def)
  next
    case Unavailable
    have "stopped_holding l m (Return STOPPING (emit SendBugMessage s1))"
      using a by (simp add: stopped_holding_def holding_def emit_def)
    then show ?thesis using None Unavailable
      by (simp add: next_question_def case_prod_unfold s1_def)
  next
    case (Fetched q)
    have "holding l m (s1\<lparr>CURRENT_QUESTION := Some q\<rparr>)"
      using a by (simp add: holding_def)
    then show ?thesis using None Fetched read_metadata_holding
      by (simp add: next_question_def case_prod_unfold s1_def)
  qed
qed

lemma obtain_body_holding:
  assumes "PROCESSOR s = Some (IdleLink l) \<or> PROCESSOR s = Some (FormProcessor l)"
    and "CURRENT_MARKUP s = m"
  shows "flow_sat (holding l m) (stopped_holding l m) (obtain_body E n tp s)"
proof -
  obtain start t where o: "open_processor s = Next (l, start) t" and h: "holding l m t"
    using open_processor_link[OF assms] by blast
  have "flow_sat (holding l m) (stopped_holding l m)
          (and_then (next_question E n l start t) (\<lambda>q s1. after_question E tp q s1))"
    by (rule flow_sat_and_then[OF next_question_holding[OF h]]) (rule after_question_holding)
  then show ?thesis by (simp add: obtain_body_def acquire_def o)
qed

lemma obtain_question_stopped_holding:
  "PROCESSOR s = Some (IdleLink l) \<or> PROCESSOR s = Some (FormProcessor l) \<Longrightarrow>
   CURRENT_MARKUP s = m \<Longrightarrow>
   obtain_question E n tp s = Some (Return STOPPING t) \<Longrightarrow> holding l m t"
proof (induction n arbitrary: s tp)
  case 0
  then show ?case by simp
next
  case (Suc n)
  note b = obtain_body_holding[OF Suc.prems(1,2), of E n tp]
  show ?case
  proof (cases "obtain_body E n tp s")
    case (Next x u)
    then show ?thesis using Suc.prems by simp
  next
    case (Exit r')
    then show ?thesis using Suc.prems b by (simp add: stopped_holding_def)
  next
    case (Again u)
    then have "holding l m u" using b by simp
    then show ?thesis using Suc.IH[of u True] Suc.prems(3) Again by (simp add: holding_def)
  next
    case OutOfFuel
    then show ?thesis using Suc.prems by simp
  qed
qed

text \<open>
  Claim C8, as amended. When the traversal that a scheduled job starts ends in the
  stopping state, whatever the cause (the form is unavailable, a question is
  unreadable, the driver refuses a submission, a stored save policy is not
  recognised), \<^verbatim>\<open>_obtain_question\<close> itself returns with the driver still in the
  field, and \<^verbatim>\<open>_auto_submit\<close> then closes the driver, puts its idle link in the
  field, removes the current question and answer, resets the answer handler and
  reports the failure. The markup field is not cleared: it is what it was before the
  job fired.
\<close>

theorem failed_fire_releases_driver:
  assumes "PROCESSOR s = Some (IdleLink l)"
    and "obtain_question E n True s = Some (Return STOPPING t)"
  shows "PROCESSOR t = Some (FormProcessor l)
       \<and> (\<exists>s'. auto_submit E n s = Some (Finished s')
            \<and> PROCESSOR s' = Some (IdleLink (get_link E l))
            \<and> trace s' = trace t @ [CloseBrowser, EditMessage JobEncounteredError]
            \<and> CURRENT_QUESTION s' = None \<and> CURRENT_ANSWER s' = None
            \<and> answer_handler_pattern s' = MatchNothing
            \<and> CURRENT_MARKUP s' = CURRENT_MARKUP s
            \<and> SAVE_PREFS s' = SAVE_PREFS t \<and> job_queue s' = job_queue t)"
proof -
  have h: "holding l (CURRENT_MARKUP s) t"
    using obtain_question_stopped_holding[OF _ _ assms(2), of l "CURRENT_MARKUP s"] assms(1)
    by simp
  then show ?thesis
    using assms
    by (simp add: auto_submit_def clean_up_def holding_def remove_current_pointers_def
          release_def emit_def)
qed

text \<open>
  A fire on an unavailable form, from a session whose markup field is set (the user
  is in the scheduler menu).
\<close>

theorem failed_fire_releases_driver_witness:
  "\<exists>s'. auto_submit (quiet_driver\<lparr>get_question_result := (\<lambda>_. Unavailable)\<rparr>) 2
           ((idle_session ''form'')\<lparr>CURRENT_MARKUP := Some FreqCustomMarkup\<rparr>)
         = Some (Finished s')
      \<and> PROCESSOR s' = Some (IdleLink ''form'')
      \<and> CURRENT_QUESTION s' = None \<and> CURRENT_ANSWER s' = None
      \<and> CURRENT_MARKUP s' = Some FreqCustomMarkup"
proof -
  define D where "D = quiet_driver\<lparr>get_question_result := (\<lambda>_. Unavailable)\<rparr>"
  define s where "s = (idle_session ''form'')\<lparr>CURRENT_MARKUP := Some FreqCustomMarkup\<rparr>"
  have "\<exists>t. obtain_question D 2 True s = Some (Return STOPPING t)"
    by (simp add: D_def s_def engine_eval example_eval eval_nat_numeral)
  then obtain t where run: "obtain_question D 2 True s = Some (Return STOPPING t)" by blast
  have p: "PROCESSOR s = Some (IdleLink ''form'')" by (simp add: s_def idle_session_def)
  have "get_link D ''form'' = ''form''" by (simp add: D_def quiet_driver_def)
  moreover have "CURRENT_MARKUP s = Some FreqCustomMarkup" by (simp add: s_def)
  ultimately show ?thesis
    using failed_fire_releases_driver[OF p run] unfolding D_def s_def by auto
qed

text \<open>
  Claim C8 as first stated fails. After a failed fire the markup field is still set;
  and when \<^verbatim>\<open>_obtain_question\<close> is called from the conversation and the form is
  unavailable, it returns the stopping state with the \<^verbatim>\<open>FormProcessor\<close> in the field
  and its browser open.
\<close>

theorem failed_fire_counterexample:
  "(\<exists>s'. auto_submit (quiet_driver\<lparr>get_question_result := (\<lambda>_. Unavailable)\<rparr>) 2
           ((idle_session ''form'')\<lparr>CURRENT_MARKUP := Some FreqCustomMarkup\<rparr>)
         = Some (Finished s')
        \<and> CURRENT_MARKUP s' = Some FreqCustomMarkup)
   \<and> (\<exists>s'. obtain_question (quiet_driver\<lparr>get_question_result := (\<lambda>_. Unavailable)\<rparr>) 2 True
              (idle_session ''form'')
            = Some (Return STOPPING s')
          \<and> PROCESSOR s' = Some (FormProcessor ''form'')
          \<and> trace s' = [EditMessage PleaseWait, Open ''form'', AnswerCallback,
                          GetQuestion True, SendBugMessage])"
  by (simp add: auto_submit_def clean_up_def engine_eval example_eval eval_nat_numeral)


section \<open>Scheduling a job\<close>

text \<open>The equations that evaluate the scheduler menu on concrete input.\<close>

lemmas scheduler_eval = confirm_add_def start_date_def trigger_for_def add_job_def
  get_jobs_by_name_def derived_name_def simple_strptime_def py_int_def py_unsigned_def
  strip_def is_space_def is_digit_def digit_val_def emit_def

text \<open>
  Claim C9 holds of the code for hourly, weekly and custom cadences and fails for daily
  and monthly ones. A daily job confirmed for 2030-01-05 10:00 and one confirmed for
  2031-02-06 10:00 are registered with the same trigger, the time of day 10:00: the
  chosen date does not reach the job queue, so the first fire cannot be at the chosen
  start. A monthly job keeps the day of the month and the time of day only. An hourly
  job is registered with the chosen start as its first fire.
\<close>

theorem daily_job_drops_start_date:
  "job_queue (final (confirm_add quiet_driver (Some True)
       ((idle_session ''form'')
          \<lparr>CURRENT_JOB := Some (JobText ''Daily, starting from 2030-01-05 10:00'')\<rparr>)))
     = [\<lparr>job_name = ''Daily, starting from 2030-01-05 10:00'', job_trigger = Daily (10, 0)\<rparr>]
   \<and> job_queue (final (confirm_add quiet_driver (Some True)
       ((idle_session ''form'')
          \<lparr>CURRENT_JOB := Some (JobText ''Daily, starting from 2031-02-06 10:00'')\<rparr>)))
     = [\<lparr>job_name = ''Daily, starting from 2031-02-06 10:00'', job_trigger = Daily (10, 0)\<rparr>]
   \<and> job_queue (final (confirm_add quiet_driver (Some True)
       ((idle_session ''form'')
          \<lparr>CURRENT_JOB := Some (JobText ''Monthly, starting from 2030-03-05 10:00'')\<rparr>)))
     = [\<lparr>job_name = ''Monthly, starting from 2030-03-05 10:00'',
         job_trigger = Monthly (10, 0) 5\<rparr>]
   \<and> job_queue (final (confirm_add quiet_driver (Some True)
       ((idle_session ''form'')
          \<lparr>CURRENT_JOB := Some (JobText ''Hourly, starting from 2030-01-05 10:00'')\<rparr>)))
     = [\<lparr>job_name = ''Hourly, starting from 2030-01-05 10:00'',
         job_trigger = Repeating 3600
           \<lparr>dt_year = 2030, dt_month = 1, dt_day = 5, dt_hour = 10, dt_minute = 0\<rparr>\<rparr>]"
  by (simp add: scheduler_eval quiet_driver_def idle_session_def)

text \<open>
  The first half of claim C9. When the start is chosen and a job with the derived
  name (cadence, then the start) is already in the queue, \<^verbatim>\<open>_start_date\<close> answers
  with the alert and stays in the start selection: the queue and the pending job are
  as they were.
\<close>

theorem duplicate_job_is_rejected:
  assumes "CURRENT_JOB s = Some (JobText cadence)"
    and "is_DatetimeMarkup (CURRENT_MARKUP s)"
    and "j \<in> set (job_queue s)" "job_name j = derived_name cadence start"
  shows "start_date (Chosen start) s = Return SELECT_START (emit AlertIdenticalJob s)
       \<and> job_queue (emit AlertIdenticalJob s) = job_queue s
       \<and> CURRENT_JOB (emit AlertIdenticalJob s) = CURRENT_JOB s"
proof -
  have "get_jobs_by_name s (derived_name cadence start) \<noteq> []"
    using assms(3,4) by (auto simp: get_jobs_by_name_def filter_empty_conv)
  then show ?thesis using assms(1,2) by (simp add: start_date_def emit_def)
qed

theorem duplicate_job_is_rejected_witness:
  "start_date (Chosen ''2030-01-05 10:00'')
     ((idle_session ''form'')
        \<lparr>CURRENT_JOB := Some (JobText ''Hourly''),
         CURRENT_MARKUP := Some (DatetimeMarkup True),
         job_queue := [\<lparr>job_name = ''Hourly, starting from 2030-01-05 10:00'',
                        job_trigger = Repeating 3600
                          \<lparr>dt_year = 2030, dt_month = 1, dt_day = 5,
                           dt_hour = 10, dt_minute = 0\<rparr>\<rparr>]\<rparr>)
   = Return SELECT_START
       (emit AlertIdenticalJob
          ((idle_session ''form'')
             \<lparr>CURRENT_JOB := Some (JobText ''Hourly''),
              CURRENT_MARKUP := Some (DatetimeMarkup True),
              job_queue := [\<lparr>job_name = ''Hourly, starting from 2030-01-05 10:00'',
                             job_trigger = Repeating 3600
                               \<lparr>dt_year = 2030, dt_month = 1, dt_day = 5,
                                dt_hour = 10, dt_minute = 0\<rparr>\<rparr>]\<rparr>))"
  using duplicate_job_is_rejected
    [of "(idle_session ''form'')
        \<lparr>CURRENT_JOB := Some (JobText ''Hourly''),
         CURRENT_MARKUP := Some (DatetimeMarkup True),
         job_queue := [\<lparr>job_name = ''Hourly, starting from 2030-01-05 10:00'',
                        job_trigger = Repeating 3600
                          \<lparr>dt_year = 2030, dt_month = 1, dt_day = 5,
                           dt_hour = 10, dt_minute = 0\<rparr>\<rparr>]\<rparr>"
        "''Hourly''"
        "\<lparr>job_name = ''Hourly, starting from 2030-01-05 10:00'',
                        job_trigger = Repeating 3600
                          \<lparr>dt_year = 2030, dt_month = 1, dt_day = 5,
                           dt_hour = 10, dt_minute = 0\<rparr>\<rparr>"
        "''2030-01-05 10:00''"]
  by (simp add: derived_name_def)

text \<open>
  The second half of claim C9, where it holds. Confirming a pending job whose name
  splits into a cadence and a start that \<^verbatim>\<open>strptime\<close> accepts registers exactly one
  job under that name and clears the pending job; an hourly, a weekly or a custom
  cadence is registered as a repeating trigger whose first fire is the chosen start.
\<close>

theorem confirmed_job_is_registered_once:
  assumes "CURRENT_JOB s = Some (JobText name)"
    and "split_str '', starting from '' name = [freq, start]"
    and "strptime E start = Some start_datetime"
    and "trigger_for E freq start_datetime = Some t"
  shows "(\<exists>s'. confirm_add E (Some True) s = Return CANCEL s'
            \<and> job_queue s' = job_queue s @ [\<lparr>job_name = name, job_trigger = t\<rparr>]
            \<and> CURRENT_JOB s' = None)
     \<and> (freq = get_hourly E \<longrightarrow> t = Repeating 3600 start_datetime)
     \<and> (freq \<noteq> get_hourly E \<and> freq \<noteq> get_daily E \<and> freq = get_weekly E
           \<longrightarrow> t = Repeating 604800 start_datetime)
     \<and> (freq \<notin> {get_hourly E, get_daily E, get_weekly E, get_monthly E}
           \<longrightarrow> (\<exists>interval. t = Repeating interval start_datetime))"
  using assms
  by (auto simp: confirm_add_def add_job_def emit_def trigger_for_def
        split: list.splits option.splits if_splits)

theorem confirmed_job_is_registered_once_witness:
  "\<exists>s'. confirm_add quiet_driver (Some True)
          ((idle_session ''form'')
             \<lparr>CURRENT_JOB := Some (JobText ''Weekly, starting from 2030-01-05 10:00'')\<rparr>)
        = Return CANCEL s'
      \<and> job_queue s' =
          [\<lparr>job_name = ''Weekly, starting from 2030-01-05 10:00'',
            job_trigger = Repeating 604800
              \<lparr>dt_year = 2030, dt_month = 1, dt_day = 5, dt_hour = 10, dt_minute = 0\<rparr>\<rparr>]
      \<and> CURRENT_JOB s' = None"
  using confirmed_job_is_registered_once
    [of "(idle_session ''form'')
             \<lparr>CURRENT_JOB := Some (JobText ''Weekly, starting from 2030-01-05 10:00'')\<rparr>"
        "''Weekly, starting from 2030-01-05 10:00''" "''Weekly''" "''2030-01-05 10:00''"
        quiet_driver
        "\<lparr>dt_year = 2030, dt_month = 1, dt_day = 5, dt_hour = 10, dt_minute = 0\<rparr>"
        "Repeating 604800
              \<lparr>dt_year = 2030, dt_month = 1, dt_day = 5, dt_hour = 10, dt_minute = 0\<rparr>"]
  by (simp add: scheduler_eval quiet_driver_def idle_session_def)

section \<open>Answers that are always saved\<close>

text \<open>
  Claim C3. Let the engine have obtained question \<open>q\<close>, and let the per-question
  preferences hold, under exactly the key of \<open>q\<close>, the policy "always save" and a
  saved answer that is true (not empty). Then nothing but the loading screen and the
  driver's reading of the form came before, the saved answer is given to the driver
  (the values of a grid mapping in their order, the parts of a tuple in their order,
  a string as it is), and when the driver reports success the engine forgets the
  current question and answer and goes on as \<^verbatim>\<open>_obtain_question(update, context)\<close>
  does from there; when the driver does not report success it stops.
\<close>

theorem always_saved_answer_is_submitted:
  assumes "acquire E n s = Next q s1"
    and "SAVE_PREFS s1 = Some sp" "LOCAL_SAVE_PREF sp = Some prefs"
    and "map_of prefs (get_pref_key q) = Some entry"
    and "PREF_KEY entry = Some SaveAlways" "ANSWER_KEY entry = Some answer"
    and "truthy s1 answer"
  shows "answer_parts s1 answer \<noteq> []
     \<and> (\<forall>a. answer = PDict a \<longrightarrow> answer_parts s1 answer = map snd (heap s1 a))
     \<and> (\<forall>xs. answer = PTuple xs \<longrightarrow> answer_parts s1 answer = map PStr xs)
     \<and> (\<forall>x. answer = PStr x \<longrightarrow> answer_parts s1 answer = [PStr x])
     \<and> quietly s s1
     \<and> obtain_question E (Suc n) True s =
         (if answer_question_result E (n_answer_question s1) = Some True
          then obtain_question E n True
                 (remove_current_pointers (submitted E (answer_parts s1 answer) s1))
          else Some (Return STOPPING (submitted E (answer_parts s1 answer) s1)))"
proof -
  have parts: "answer_parts s1 answer \<noteq> []" by (rule truthy_parts[OF assms(7)])
  have q: "quietly s s1" using acquire_quietly[of s E n] assms(1) by simp
  have sa: "saved_answer E True q s1 =
         (if answer_question_result E (n_answer_question s1) = Some True
          then Again (remove_current_pointers (submitted E (answer_parts s1 answer) s1))
          else Exit (Return STOPPING (submitted E (answer_parts s1 answer) s1)))"
    using assms(2-7) by (simp add: saved_answer_def stored_answer_def submit_nonempty[OF parts])
  have "obtain_question E (Suc n) True s =
         (if answer_question_result E (n_answer_question s1) = Some True
          then obtain_question E n True
                 (remove_current_pointers (submitted E (answer_parts s1 answer) s1))
          else Some (Return STOPPING (submitted E (answer_parts s1 answer) s1)))"
    by (simp add: obtain_question_after[OF assms(1)] after_question_def sa
          del: obtain_question.simps)
  then show ?thesis using parts q by simp
qed

theorem always_saved_answer_is_submitted_witness:
  "\<exists>t. obtain_question (quiet_driver\<lparr>get_question_result := form_of [name_question]\<rparr>)
          (Suc (Suc (Suc 0))) True
          (remembering [(get_pref_key name_question, always_alan)] (idle_session ''form''))
        = Some (Return RETURN t)
      \<and> trace t =
          [EditMessage PleaseWait, Open ''form'', AnswerCallback, GetQuestion True, GetInfo,
           AnswerQuestion [PStr ''Alan''],
           EditMessage PleaseWait, GetQuestion False, EditMessage FormSubmitted, CloseBrowser]"
proof -
  let ?E = "quiet_driver\<lparr>get_question_result := form_of [name_question]\<rparr>"
  let ?prefs = "[(get_pref_key name_question, always_alan)]"
  let ?s = "remembering ?prefs (idle_session ''form'')"
  have a: "acquire ?E (Suc (Suc 0)) ?s = Next name_question (reading name_question ?s)"
    by (simp add: engine_eval example_eval remembering_def reading_def)
  show ?thesis
    using always_saved_answer_is_submitted[OF a,
            of "\<lparr>GLOBAL_SAVE_PREF = Some AskAgain, LOCAL_SAVE_PREF = Some ?prefs\<rparr>"
               ?prefs always_alan "PStr ''Alan''"]
    by (simp add: engine_eval example_eval remembering_def reading_def always_alan_def
          submitted_def)
qed

section \<open>Close matches\<close>

text \<open>
  Claim C5. Let the engine have obtained question \<open>q\<close>, and let the per-question
  preferences have no entry under the key of \<open>q\<close> but a close match. Then the handler
  returns, and nothing was submitted to the driver on the way, whatever the policy of
  the matched entry; when it asks for confirmation it does so with the recommendation
  message and through the confirmation handler, and for a question that is not a grid
  and a saved answer that is true it does ask, recommending that answer. Whatever the
  reply to \<^verbatim>\<open>_submit_answer\<close> is, short of a confirmation, still nothing is
  submitted.
\<close>

theorem close_match_is_only_recommended:
  assumes "acquire E n s = Next q s1"
    and "SAVE_PREFS s1 = Some sp" "LOCAL_SAVE_PREF sp = Some prefs"
    and "map_of prefs (get_pref_key q) = None"
    and "close_match (get_pref_key q) prefs = Some (k, entry)"
  shows "\<exists>r. obtain_question E (Suc n) True s = Some r
       \<and> unsubmitted s (final r)
       \<and> recommended r
       \<and> (truthy s1 (stored_answer entry) \<and> \<not> isinstance q BaseOptionGridQuestion
            \<longrightarrow> (\<exists>t. r = Return CONFIRM_SUBMIT t
                    \<and> last (trace t)
                        = EditMessage (AnswerRecommendation
                            (answer_text E s1 (stored_answer entry)))))
       \<and> (\<forall>m c r'. c \<noteq> Some True \<longrightarrow> submit_answer E m c (final r) = Some r'
            \<longrightarrow> unsubmitted s (final r'))"
proof -
  have q: "unsubmitted s s1"
    using acquire_quietly[of s E n] assms(1) by (simp add: quietly_unsubmitted)
  have sa: "saved_answer E True q s1 = Next (stored_answer entry, None) s1"
    using assms(2-5) by (simp add: saved_answer_def)
  obtain r where r: "after_question E True q s1 = Exit r"
    and u: "unsubmitted s1 (final r)" and rec: "recommended r"
    by (rule passed_on[OF sa])
  have run: "obtain_question E (Suc n) True s = Some r"
    by (simp add: obtain_question_after[OF assms(1)] r del: obtain_question.simps)
  have un: "unsubmitted s (final r)" by (rule unsubmitted_trans[OF q u])
  have plain: "\<exists>t. r = Return CONFIRM_SUBMIT t
                    \<and> last (trace t)
                        = EditMessage (AnswerRecommendation
                            (answer_text E s1 (stored_answer entry)))"
    if h: "truthy s1 (stored_answer entry) \<and> \<not> isinstance q BaseOptionGridQuestion"
  proof -
    define s' where
      "s' = (if CURRENT_ANSWER s1 = None
             then s1\<lparr>CURRENT_ANSWER := Some (stored_answer entry)\<rparr> else s1)"
    define t where
      "t = (emit (EditMessage (AnswerRecommendation (answer_text E s' (stored_answer entry)))) s')
             \<lparr>confirm_handler_pattern := TFPattern\<rparr>"
    have "after_question E True q s1 = Exit (Return CONFIRM_SUBMIT t)"
      using h
      by (simp only: after_question_def sa and_then.simps prod.case grid_region_def
            recommend_def sub_answer_def s'_def t_def if_True if_False simp_thms
            option.distinct)
    then have "r = Return CONFIRM_SUBMIT t" using r by simp
    moreover have "heap s' = heap s1" by (simp add: s'_def)
    then have "answer_text E s' (stored_answer entry) = answer_text E s1 (stored_answer entry)"
      by (rule answer_text_heap)
    then have "last (trace t)
        = EditMessage (AnswerRecommendation (answer_text E s1 (stored_answer entry)))"
      by (simp add: t_def emit_def)
    ultimately show ?thesis by blast
  qed
  have later: "unsubmitted s (final r')"
    if "c \<noteq> Some True" "submit_answer E m c (final r) = Some r'" for m c r'
    by (rule unsubmitted_trans[OF un submit_answer_unconfirmed[OF that]])
  show ?thesis
  proof (intro exI[of _ r] conjI allI impI)
    show "obtain_question E (Suc n) True s = Some r" by (rule run)
    show "unsubmitted s (final r)" by (rule un)
    show "recommended r" by (rule rec)
  next
    assume "truthy s1 (stored_answer entry) \<and> \<not> isinstance q BaseOptionGridQuestion"
    then show "\<exists>t. r = Return CONFIRM_SUBMIT t
                    \<and> last (trace t)
                        = EditMessage (AnswerRecommendation
                            (answer_text E s1 (stored_answer entry)))"
      by (rule plain)
  next
    fix m c r'
    assume "c \<noteq> Some True" "submit_answer E m c (final r) = Some r'"
    then show "unsubmitted s (final r')" by (rule later)
  qed
qed

theorem close_match_is_only_recommended_witness:
  "\<exists>t. obtain_question (quiet_driver\<lparr>get_question_result := form_of [name_question]\<rparr>)
          (Suc (Suc 0)) True
          (remembering [((''Name'', ''Your name'', True), always_alan)] (idle_session ''form''))
        = Some (Return CONFIRM_SUBMIT t)
      \<and> trace t =
          [EditMessage PleaseWait, Open ''form'', AnswerCallback, GetQuestion True, GetInfo,
           EditMessage (AnswerRecommendation ''Alan'')]
      \<and> n_answer_question t = 0"
proof -
  let ?E = "quiet_driver\<lparr>get_question_result := form_of [name_question]\<rparr>"
  let ?prefs = "[((''Name'', ''Your name'', True), always_alan)]"
  let ?s = "remembering ?prefs (idle_session ''form'')"
  have a: "acquire ?E (Suc 0) ?s = Next name_question (reading name_question ?s)"
    by (simp add: engine_eval example_eval remembering_def reading_def)
  show ?thesis
    using close_match_is_only_recommended[OF a,
            of "\<lparr>GLOBAL_SAVE_PREF = Some AskAgain, LOCAL_SAVE_PREF = Some ?prefs\<rparr>"
               ?prefs "(''Name'', ''Your name'', True)" always_alan]
    by (simp add: engine_eval example_eval remembering_def reading_def always_alan_def)
qed

section \<open>Rejecting an answer of a grid question\<close>

lemma find_append_none:
  "\<forall>x\<in>set xs. \<not> P x \<Longrightarrow> find P (xs @ ys) = find P ys"
  by (induction xs) auto

lemma od_set_split:
  "k \<notin> fst ` set before \<Longrightarrow> od_set (before @ (k, v) # after) k w = before @ (k, w) # after"
  by (induction before) auto

lemma last_answered_split:
  assumes "distinct (map fst (before @ (k, v) # after))" "v \<noteq> PNone"
    and "\<forall>x\<in>set after. snd x = PNone"
  shows "last_answered (before @ (k, v) # after) = Some k"
proof -
  let ?d = "before @ (k, v) # after"
  have "map_of before k = None" using assms(1) by (auto simp: map_of_eq_None_iff)
  then have k: "od_get ?d k = v"
    by (simp add: od_get_def map_add_def)
  have later: "od_get ?d k' = PNone" if "k' \<in> fst ` set after" for k'
  proof -
    have "map_of before k' = None" using assms(1) that by (auto simp: map_of_eq_None_iff)
    moreover have "k' \<noteq> k" using assms(1) that by auto
    moreover have "w = PNone" if m: "map_of after k' = Some w" for w
      using map_of_SomeD[OF m] assms(3) by force
    ultimately show ?thesis
      by (auto simp: od_get_def map_add_def split: option.splits)
  qed
  have "last_answered ?d
      = find (\<lambda>k. od_get ?d k \<noteq> PNone) (rev (map fst after) @ k # rev (map fst before))"
    by (simp add: last_answered_def)
  also have "\<dots> = find (\<lambda>k. od_get ?d k \<noteq> PNone) (k # rev (map fst before))"
    by (rule find_append_none) (use later in auto)
  also have "\<dots> = Some k" using k assms(2) by simp
  finally show ?thesis .
qed

lemma clear_last_split:
  assumes "distinct (map fst (before @ (k, v) # after))" "v \<noteq> PNone"
    and "\<forall>x\<in>set after. snd x = PNone"
  shows "clear_last (before @ (k, v) # after) = before @ (k, PNone) # after"
proof -
  have "k \<notin> fst ` set before" using assms(1) by auto
  then show ?thesis
    by (simp add: clear_last_def last_answered_split[OF assms] od_set_split)
qed

lemma first_unanswered_some: "PNone \<in> snd ` set d \<Longrightarrow> \<exists>x. first_unanswered d = Some x"
  by (induction d) auto

lemma reprompt:
  assumes "CURRENT_QUESTION s = Some q" "PROCESSOR s = Some (FormProcessor l)"
    and "CURRENT_MARKUP s = None"
    and "CURRENT_ANSWER s = Some (PDict a)" "PNone \<in> snd ` set (heap s a)"
  shows "obtain_question E (Suc n) False s =
     Some (prompt (markup_for q)
            ((emit (EditMessage PleaseWait) s)\<lparr>CURRENT_MARKUP := Some (markup_for q)\<rparr>))"
proof -
  let ?s3 = "emit (EditMessage PleaseWait) s"
  have a: "acquire E n s = Next q ?s3"
    using assms(1,2) by (simp add: acquire_def open_processor_def next_question_def emit_def)
  obtain x where x: "first_unanswered (heap s a) = Some x"
    using first_unanswered_some[OF assms(5)] by blast
  have g: "grid_region q PNone ?s3 =
             Next (if isinstance q BaseOptionGridQuestion then Some x else None, PNone) ?s3"
    using assms(4) x by (simp add: grid_region_def emit_def)
  have "after_question E False q ?s3 =
          Exit (prompt (markup_for q) (?s3\<lparr>CURRENT_MARKUP := Some (markup_for q)\<rparr>))"
  proof -
    have m: "CURRENT_MARKUP ?s3 = None" using assms(3) by (simp add: emit_def)
    show ?thesis
      by (simp add: after_question_def saved_answer_def g recommend_def ask_def m)
  qed
  then show ?thesis
    by (simp add: obtain_question_after[OF a] del: obtain_question.simps)
qed

text \<open>
  Claim C6. Let the current answer be the mapping of a grid question, with distinct
  keys, and let \<open>k\<close> be its last key, in the order of the mapping, that has an answer.
  When the user rejects the confirmation, \<^verbatim>\<open>_submit_answer\<close> resets the answer of \<open>k\<close>
  to \<^verbatim>\<open>None\<close> and leaves every other entry, and every other mapping, as it was; it then
  asks for an answer to the same question again: the current question and answer stay,
  the form is not read and nothing is submitted.
\<close>

theorem rejected_grid_answer_clears_last_filled:
  assumes "CURRENT_ANSWER s = Some (PDict a)" "CURRENT_QUESTION s = Some q"
    and "PROCESSOR s = Some (FormProcessor l)"
    and "heap s a = before @ (k, v) # after" "v \<noteq> PNone"
    and "\<forall>x\<in>set after. snd x = PNone"
    and "distinct (map fst (heap s a))"
  shows "\<exists>t. submit_answer E (Suc n) (Some False) s = Some (Return SKIP_OR_ANSWER t)
       \<and> heap t a = before @ (k, PNone) # after
       \<and> (\<forall>b. b \<noteq> a \<longrightarrow> heap t b = heap s b)
       \<and> CURRENT_QUESTION t = Some q \<and> CURRENT_ANSWER t = Some (PDict a)
       \<and> PROCESSOR t = PROCESSOR s
       \<and> trace t = trace s @ [AnswerCallback, EditMessage PleaseWait, EditMessage PleaseAnswer]
       \<and> n_get_question t = n_get_question s
       \<and> n_answer_question t = n_answer_question s"
proof -
  define s1 where
    "s1 = (emit AnswerCallback s)\<lparr>CURRENT_MARKUP := None, confirm_handler_pattern := MatchNothing\<rparr>"
  define s2 where "s2 = s1\<lparr>heap := (heap s1)(a := before @ (k, PNone) # after)\<rparr>"
  have h1: "heap s1 = heap s" by (simp add: s1_def emit_def)
  have cl: "clear_last (heap s1 a) = before @ (k, PNone) # after"
    unfolding h1 assms(4) by (rule clear_last_split) (use assms in simp_all)
  have rj: "reject_answer s1 = s2"
    using assms(1) by (simp add: reject_answer_def s1_def s2_def emit_def cl[unfolded s1_def emit_def, simplified])
  have run: "submit_answer E (Suc n) (Some False) s = obtain_question E (Suc n) False s2"
    using assms(1-3)
    by (simp add: submit_answer_def rj[unfolded s1_def] del: obtain_question.simps)
  define t where
    "t = final (prompt (markup_for q)
            ((emit (EditMessage PleaseWait) s2)\<lparr>CURRENT_MARKUP := Some (markup_for q)\<rparr>))"
  have "obtain_question E (Suc n) False s2 =
     Some (prompt (markup_for q)
            ((emit (EditMessage PleaseWait) s2)\<lparr>CURRENT_MARKUP := Some (markup_for q)\<rparr>))"
    by (rule reprompt[where l = l and a = a])
       (use assms(1-3) in \<open>simp_all add: s2_def s1_def emit_def\<close>)
  then have res: "submit_answer E (Suc n) (Some False) s = Some (Return SKIP_OR_ANSWER t)"
    by (simp add: run t_def prompt_def del: obtain_question.simps)
  have "heap t a = before @ (k, PNone) # after"
    and "\<forall>b. b \<noteq> a \<longrightarrow> heap t b = heap s b"
    and "CURRENT_QUESTION t = Some q" and "CURRENT_ANSWER t = Some (PDict a)"
    and "PROCESSOR t = PROCESSOR s"
    and "trace t = trace s @ [AnswerCallback, EditMessage PleaseWait, EditMessage PleaseAnswer]"
    and "n_get_question t = n_get_question s"
    and "n_answer_question t = n_answer_question s"
    using assms(1-3) by (simp_all add: t_def prompt_def s2_def s1_def emit_def)
  with res show ?thesis by blast
qed

theorem rejected_grid_answer_clears_last_filled_witness:
  "\<exists>t. submit_answer quiet_driver (Suc 0) (Some False) grid_session
          = Some (Return SKIP_OR_ANSWER t)
      \<and> heap t 0 = [(''Mon'', PStr ''Fish''), (''Tue'', PNone), (''Wed'', PNone)]
      \<and> CURRENT_QUESTION t = Some grid_question
      \<and> trace t = [AnswerCallback, EditMessage PleaseWait, EditMessage PleaseAnswer]"
  using rejected_grid_answer_clears_last_filled
    [of grid_session 0 grid_question "''form''" "[(''Mon'', PStr ''Fish'')]" "''Tue''"
        "PStr ''Pasta''" "[(''Wed'', PNone)]" quiet_driver 0]
  by (auto simp: grid_session_def idle_session_def grid_question_def)

section \<open>The latest answer of a grid question\<close>

lemma first_unanswered_dropWhile:
  "first_unanswered d = Some k \<Longrightarrow>
   \<exists>rest. dropWhile (\<lambda>x. snd x \<noteq> PNone) d = (k, PNone) # rest"
  by (induction d) (auto split: if_splits)

lemma dropWhile_filled:
  assumes "\<forall>x\<in>set tw. snd x \<noteq> PNone" "v \<noteq> PNone" "\<forall>x\<in>set rest. snd x = PNone"
  shows "filled_in_order (tw @ (k, v) # rest)"
proof -
  have "dropWhile (\<lambda>x. snd x \<noteq> PNone) (tw @ (k, v) # rest)
          = dropWhile (\<lambda>x. snd x \<noteq> PNone) rest"
    using assms(1,2) by (simp add: dropWhile_append)
  moreover have "set (dropWhile (\<lambda>x. snd x \<noteq> PNone) rest) \<subseteq> set rest"
    by (rule set_dropWhileD[THEN subsetI])
  ultimately show ?thesis using assms(3) by (auto simp: filled_in_order_def list_all_iff)
qed

text \<open>
  Storing and rejecting. The user's input to a grid question is stored under the first
  sub-question that has no answer (a skip as the empty string), which keeps the
  mapping filled in order; rejecting the confirmation right after takes exactly this
  answer back, so the mapping is as it was before the input.
\<close>

theorem rejection_undoes_latest_answer:
  assumes "CURRENT_ANSWER s = Some (PDict a)"
    and "distinct (map fst (heap s a))" "filled_in_order (heap s a)"
    and "first_unanswered (heap s a) = Some k" "input \<noteq> PNone"
  shows "od_get (heap (store_answer E input s) a) k
           = (if input = PStr (get_skip E) \<or> input = PStr ''/skip'' then PStr [] else input)
       \<and> filled_in_order (heap (store_answer E input s) a)
       \<and> heap (reject_answer (store_answer E input s)) a = heap s a"
proof -
  define v where
    "v = (if input = PStr (get_skip E) \<or> input = PStr ''/skip'' then PStr [] else input)"
  define tw where "tw = takeWhile (\<lambda>x. snd x \<noteq> PNone) (heap s a)"
  obtain rest where rest: "dropWhile (\<lambda>x. snd x \<noteq> PNone) (heap s a) = (k, PNone) # rest"
    using first_unanswered_dropWhile[OF assms(4)] by blast
  have d: "heap s a = tw @ (k, PNone) # rest"
    using takeWhile_dropWhile_id[of "\<lambda>x. snd x \<noteq> PNone" "heap s a"] by (simp add: tw_def rest)
  have v: "v \<noteq> PNone" using assms(5) by (simp add: v_def)
  have tw: "\<forall>x\<in>set tw. snd x \<noteq> PNone" by (auto simp: tw_def dest: set_takeWhileD)
  have none: "\<forall>x\<in>set rest. snd x = PNone"
    using assms(3) by (simp add: filled_in_order_def rest list_all_iff)
  have k: "k \<notin> fst ` set tw" using assms(2) by (auto simp: d)
  have st: "heap (store_answer E input s) a = tw @ (k, v) # rest"
    using assms(1,4) by (simp add: store_answer_def v_def d[symmetric]) (simp add: d od_set_split[OF k])
  have ca: "CURRENT_ANSWER (store_answer E input s) = Some (PDict a)"
    using assms(1,4) by (simp add: store_answer_def)
  have dist: "distinct (map fst (tw @ (k, v) # rest))" using assms(2) by (simp add: d)
  have "map_of tw k = None" using k by (simp add: map_of_eq_None_iff)
  then have 1: "od_get (heap (store_answer E input s) a) k = v"
    by (simp add: st od_get_def map_add_def)
  have 2: "filled_in_order (heap (store_answer E input s) a)"
    unfolding st by (rule dropWhile_filled[OF tw v none])
  have "heap (reject_answer (store_answer E input s)) a
          = clear_last (heap (store_answer E input s) a)"
    by (simp add: reject_answer_def ca)
  also have "\<dots> = tw @ (k, PNone) # rest"
    unfolding st by (rule clear_last_split[OF dist v none])
  finally have 3: "heap (reject_answer (store_answer E input s)) a = heap s a" by (simp add: d)
  show ?thesis using 1 2 3 by (simp add: v_def)
qed

theorem rejection_undoes_latest_answer_witness:
  "heap (store_answer quiet_driver (PStr ''Fish'') grid_session) 0
     = [(''Mon'', PStr ''Fish''), (''Tue'', PStr ''Pasta''), (''Wed'', PStr ''Fish'')]
   \<and> heap (reject_answer (store_answer quiet_driver (PStr ''Fish'') grid_session)) 0
     = [(''Mon'', PStr ''Fish''), (''Tue'', PStr ''Pasta''), (''Wed'', PNone)]"
  using rejection_undoes_latest_answer[of grid_session 0 "''Wed''" "PStr ''Fish''" quiet_driver]
  by (simp add: grid_session_def idle_session_def quiet_driver_def store_answer_def
        filled_in_order_def)

end
